theory Spec2Isabelle
  imports Main "HOL-Library.Word"
begin

unbundle bit_operations_syntax

section \<open>The Go program: \<open>binaryFieldMul\<close>\<close>

text \<open>
  The source works on byte slices (\<open>[]byte\<close>) and on slices of unsigned 64-bit words
  (\<open>[]uint64\<close>). Both are lists of machine words here; \<open>+\<close>, \<open>-\<close> and the shifts
  wrap as Go's do. Loop counters are Go \<open>int\<close>s that stay between 0 and 64, so they
  are natural numbers.

  The slices \<open>a\<close>, \<open>b\<close> and \<open>c\<close> are made with the constant lengths 4, 5 and 8 and are
  indexed by loop counters with constant bounds (\<open>i >> 3 \<le> 3\<close>, \<open>i \<le> 4\<close>, \<open>j + i \<le> 7\<close>,
  \<open>i - 4 \<le> i \<le> 7\<close>); so is \<open>C\<close>, of length 32. These accesses are within range whatever
  the input, and the model reads them with \<open>!\<close> and writes them with a list update. The
  reads \<open>A[i]\<close> and \<open>B[i]\<close> depend on the lengths the caller passes and are checked.
\<close>

type_synonym byte = "8 word"
type_synonym uint64 = "64 word"

text \<open>
  Reading \<open>A[i]\<close> with \<open>i \<ge> len(A)\<close> makes the Go runtime panic with
  ``index out of range [i] with length n''. The panic is a value of the model.
\<close>

datatype error = IndexOutOfRange nat nat

text \<open>
  Lines 24--27: the loop that condenses \<open>A\<close> and \<open>B\<close> into word vectors. In Go
  \<open>&\<close> and \<open><<\<close> have the same precedence and associate to the left, so
  \<open>i & 0x07 << 3\<close> is \<open>(i & 0x07) << 3\<close>.
\<close>

function pack_loop ::
  "nat \<Rightarrow> byte list \<Rightarrow> byte list \<Rightarrow> uint64 list \<Rightarrow> uint64 list
     \<Rightarrow> error + (uint64 list \<times> uint64 list)" where
  "pack_loop i A B a b =
     (if i < 32 then
        if \<not> i < length A then Inl (IndexOutOfRange i (length A))
        else
          let a' = a[drop_bit 3 i := a ! drop_bit 3 i OR push_bit (push_bit 3 (i AND 7)) (ucast (A ! i))]
          in
            if \<not> i < length B then Inl (IndexOutOfRange i (length B))
            else
              let b' = b[drop_bit 3 i := b ! drop_bit 3 i OR push_bit (push_bit 3 (i AND 7)) (ucast (B ! i))]
              in pack_loop (i + 1) A B a' b'
      else Inr (a, b))"
  by pat_completeness auto
termination
  by (relation "measure (\<lambda>(i, A, B, a, b). 32 - i)") auto

declare pack_loop.simps [simp del]

text \<open>Line 35: the mask, all ones or all zeros, from bit \<open>k\<close> of word \<open>j\<close> of \<open>a\<close>.\<close>

definition comb_mask :: "uint64 list \<Rightarrow> nat \<Rightarrow> nat \<Rightarrow> uint64" where
  "comb_mask a j k = - (drop_bit k (a ! j) AND 1)"

text \<open>Lines 36--38: \<open>for i := 0; i < t+1; i++ { c[j+i] ^= b[i] & mask }\<close>.\<close>

function comb_add :: "nat \<Rightarrow> nat \<Rightarrow> uint64 \<Rightarrow> uint64 list \<Rightarrow> uint64 list \<Rightarrow> uint64 list" where
  "comb_add i j m b c =
     (if i < 4 + 1 then comb_add (i + 1) j m b (c[j + i := c ! (j + i) XOR (b ! i AND m)])
      else c)"
  by pat_completeness auto
termination
  by (relation "measure (\<lambda>(i, j, m, b, c). 5 - i)") auto

declare comb_add.simps [simp del]

text \<open>Lines 29--39: \<open>for j := 0; j < t; j++\<close>.\<close>

function comb_words :: "nat \<Rightarrow> nat \<Rightarrow> uint64 list \<Rightarrow> uint64 list \<Rightarrow> uint64 list \<Rightarrow> uint64 list" where
  "comb_words j k a b c =
     (if j < 4 then comb_words (j + 1) k a b (comb_add 0 j (comb_mask a j k) b c)
      else c)"
  by pat_completeness auto
termination
  by (relation "measure (\<lambda>(j, k, a, b, c). 4 - j)") auto

declare comb_words.simps [simp del]

text \<open>Lines 40--42: \<open>for i := t; i > 0; i-- { b[i] = b[i]<<1 | b[i-1]>>63 }\<close>.\<close>

fun shift_loop :: "nat \<Rightarrow> uint64 list \<Rightarrow> uint64 list" where
  "shift_loop 0 b = b"
| "shift_loop (Suc n) b =
     shift_loop n (b[Suc n := push_bit 1 (b ! Suc n) OR drop_bit 63 (b ! n)])"

text \<open>Lines 40--43: the whole shift of \<open>b\<close> by one bit, with \<open>b[0] <<= 1\<close> last.\<close>

definition shift_b :: "uint64 list \<Rightarrow> uint64 list" where
  "shift_b b = (let b' = shift_loop 4 b in b'[0 := push_bit 1 (b' ! 0)])"

text \<open>Lines 28--44: \<open>for k := 0; k < W; k++\<close>.\<close>

function comb_loop :: "nat \<Rightarrow> uint64 list \<Rightarrow> uint64 list \<Rightarrow> uint64 list \<Rightarrow> uint64 list" where
  "comb_loop k a b c =
     (if k < 64 then comb_loop (k + 1) a (shift_b b) (comb_words 0 k a b c)
      else c)"
  by pat_completeness auto
termination
  by (relation "measure (\<lambda>(k, a, b, c). 64 - k)") auto

declare comb_loop.simps [simp del]

text \<open>Lines 51--57: the body of the reduction loop, seven assignments in order.\<close>

definition reduce_step :: "nat \<Rightarrow> uint64 list \<Rightarrow> uint64 list" where
  "reduce_step i c0 =
     (let c1 = c0[i - 4 := c0 ! (i - 4) XOR push_bit 10 (c0 ! i)];
          c2 = c1[i - 3 := c1 ! (i - 3) XOR drop_bit 54 (c1 ! i)];
          c3 = c2[i - 4 := c2 ! (i - 4) XOR push_bit 5 (c2 ! i)];
          c4 = c3[i - 3 := c3 ! (i - 3) XOR drop_bit 59 (c3 ! i)];
          c5 = c4[i - 4 := c4 ! (i - 4) XOR push_bit 2 (c4 ! i)];
          c6 = c5[i - 3 := c5 ! (i - 3) XOR drop_bit 62 (c5 ! i)]
      in c6[i - 4 := c6 ! (i - 4) XOR c6 ! i])"

text \<open>Lines 50--58: \<open>for i := 2*t - 1; i >= t; i--\<close>.\<close>

function reduce_loop :: "nat \<Rightarrow> uint64 list \<Rightarrow> uint64 list" where
  "reduce_loop i c = (if i \<ge> 4 then reduce_loop (i - 1) (reduce_step i c) else c)"
  by pat_completeness auto
termination
  by (relation "measure (\<lambda>(i, c). i)") auto

declare reduce_loop.simps [simp del]

text \<open>Lines 60--62: \<open>C[i] = byte(c[i>>3] >> (i & 0x07 << 3))\<close>.\<close>

function unpack_loop :: "nat \<Rightarrow> uint64 list \<Rightarrow> byte list \<Rightarrow> byte list" where
  "unpack_loop i c C =
     (if i < 32 then
        unpack_loop (i + 1) c (C[i := ucast (drop_bit (push_bit 3 (i AND 7)) (c ! drop_bit 3 i))])
      else C)"
  by pat_completeness auto
termination
  by (relation "measure (\<lambda>(i, c, C). 32 - i)") auto

declare unpack_loop.simps [simp del]

text \<open>Lines 11--64. \<open>make\<close> gives slices of zeros.\<close>

definition binaryFieldMul :: "byte list \<Rightarrow> byte list \<Rightarrow> error + byte list" where
  "binaryFieldMul A B =
     (let c = replicate (2 * 4) 0;
          a = replicate 4 0;
          b = replicate (4 + 1) 0
      in case pack_loop 0 A B a b of
           Inl e \<Rightarrow> Inl e
         | Inr (a, b) \<Rightarrow>
             let c = comb_loop 0 a b c;
                 c = reduce_loop (2 * 4 - 1) c;
                 C = replicate 32 0
             in Inr (unpack_loop 0 c C))"

text \<open>
  Lines 105--111 of \<open>main\<close>: \<open>temp = binaryFieldMul(temp, temp)\<close>, repeated; the first
  argument counts the iterations that remain. A panic of the call ends the loop.
\<close>

fun square_iter :: "nat \<Rightarrow> byte list \<Rightarrow> error + byte list" where
  "square_iter 0 temp = Inr temp"
| "square_iter (Suc j) temp =
     (case binaryFieldMul temp temp of Inl e \<Rightarrow> Inl e | Inr temp' \<Rightarrow> square_iter j temp')"

subsection \<open>The same function on a store\<close>

text \<open>
  Where it matters which memory the function reads and writes, byte slices live in a
  store: a list of byte arrays, each one the backing array of a \<open>make\<close>, and a slice is a
  window \<open>(base, off, len)\<close> into one of them, as Go's slices are. Two slices may share
  a backing array or be the same slice, as in \<open>binaryFieldMul(temp, temp)\<close>. The local
  \<open>[]uint64\<close> slices \<open>a\<close>, \<open>b\<close> and \<open>c\<close> never leave the function and cannot alias a
  \<open>[]byte\<close>; they stay values.
\<close>

record slice =
  base :: nat
  off :: nat
  len :: nat

type_synonym heap = "byte list list"

definition rd :: "heap \<Rightarrow> slice \<Rightarrow> nat \<Rightarrow> error + byte" where
  "rd h s i =
     (if i < len s then Inr (h ! base s ! (off s + i)) else Inl (IndexOutOfRange i (len s)))"

definition wr :: "heap \<Rightarrow> slice \<Rightarrow> nat \<Rightarrow> byte \<Rightarrow> heap" where
  "wr h s i v = h[base s := (h ! base s)[off s + i := v]]"

definition make_bytes :: "heap \<Rightarrow> nat \<Rightarrow> slice \<times> heap" where
  "make_bytes h n = (\<lparr>base = length h, off = 0, len = n\<rparr>, h @ [replicate n 0])"

text \<open>Lines 24--27 again, reading \<open>A[i]\<close> and \<open>B[i]\<close> from the store.\<close>

function pack_loop_st ::
  "nat \<Rightarrow> heap \<Rightarrow> slice \<Rightarrow> slice \<Rightarrow> uint64 list \<Rightarrow> uint64 list
     \<Rightarrow> error + (uint64 list \<times> uint64 list)" where
  "pack_loop_st i h A B a b =
     (if i < 32 then
        case rd h A i of
          Inl e \<Rightarrow> Inl e
        | Inr x \<Rightarrow>
            let a' = a[drop_bit 3 i := a ! drop_bit 3 i OR push_bit (push_bit 3 (i AND 7)) (ucast x)]
            in case rd h B i of
                 Inl e \<Rightarrow> Inl e
               | Inr y \<Rightarrow>
                   let b' = b[drop_bit 3 i := b ! drop_bit 3 i OR push_bit (push_bit 3 (i AND 7)) (ucast y)]
                   in pack_loop_st (i + 1) h A B a' b'
      else Inr (a, b))"
  by pat_completeness auto
termination
  by (relation "measure (\<lambda>(i, h, A, B, a, b). 32 - i)") auto

declare pack_loop_st.simps [simp del]

text \<open>Lines 60--62 again, writing \<open>C[i]\<close> to the store.\<close>

function unpack_loop_st :: "nat \<Rightarrow> uint64 list \<Rightarrow> slice \<Rightarrow> heap \<Rightarrow> heap" where
  "unpack_loop_st i c C h =
     (if i < 32 then
        unpack_loop_st (i + 1) c C
          (wr h C i (ucast (drop_bit (push_bit 3 (i AND 7)) (c ! drop_bit 3 i))))
      else h)"
  by pat_completeness auto
termination
  by (relation "measure (\<lambda>(i, c, C, h). 32 - i)") auto

declare unpack_loop_st.simps [simp del]

text \<open>Lines 11--64 again; \<open>C := make([]byte, 32)\<close> allocates and the slice \<open>C\<close> is returned.\<close>

definition binaryFieldMul_st :: "heap \<Rightarrow> slice \<Rightarrow> slice \<Rightarrow> error + (slice \<times> heap)" where
  "binaryFieldMul_st h A B =
     (let c = replicate (2 * 4) 0;
          a = replicate 4 0;
          b = replicate (4 + 1) 0
      in case pack_loop_st 0 h A B a b of
           Inl e \<Rightarrow> Inl e
         | Inr (a, b) \<Rightarrow>
             let c = comb_loop 0 a b c;
                 c = reduce_loop (2 * 4 - 1) c;
                 (C, h') = make_bytes h 32
             in Inr (C, unpack_loop_st 0 c C h'))"

text \<open>What a slice holds, and when it lies within the store.\<close>

definition contents :: "heap \<Rightarrow> slice \<Rightarrow> byte list" where
  "contents h s = take (len s) (drop (off s) (h ! base s))"

definition valid :: "heap \<Rightarrow> slice \<Rightarrow> bool" where
  "valid h s \<longleftrightarrow> base s < length h \<and> off s + len s \<le> length (h ! base s)"

section \<open>Specification: polynomials over GF(2)\<close>

text \<open>
  A polynomial over GF(2) is written as the natural number whose bit \<open>n\<close> is the
  coefficient of \<open>X\<^sup>n\<close>; adding two polynomials is \<open>XOR\<close> and multiplying by
  \<open>X\<close> is doubling. A slice of words stands for the polynomial whose coefficients
  are its bits, least significant word first and least significant bit first
  (little-endian): \<open>le_val\<close>, for bytes and for 64-bit words alike.
\<close>

fun le_val :: "'a::len word list \<Rightarrow> nat" where
  "le_val [] = 0"
| "le_val (w # ws) = unat w + 2 ^ LENGTH('a) * le_val ws"

text \<open>
  The product of two polynomials over GF(2) (carry-less multiplication): for each
  coefficient of \<open>a\<close> that is 1, the matching multiple of \<open>b\<close> is added.
\<close>

fun clmul :: "nat \<Rightarrow> nat \<Rightarrow> nat" where
  "clmul a b = (if a = 0 then 0 else (if odd a then b else 0) XOR 2 * clmul (a div 2) b)"

declare clmul.simps [simp del]

text \<open>The modulus \<open>f(X) = X\<^sup>2\<^sup>5\<^sup>6 + X\<^sup>1\<^sup>0 + X\<^sup>5 + X\<^sup>2 + 1\<close>, and its low part.\<close>

definition fpoly :: nat where
  "fpoly = 2 ^ 256 + 2 ^ 10 + 2 ^ 5 + 2 ^ 2 + 1"

definition rpoly :: nat where
  "rpoly = 2 ^ 10 + 2 ^ 5 + 2 ^ 2 + 1"

text \<open>
  The remainder of \<open>p\<close> modulo \<open>f\<close>, by Horner's rule on the coefficients of \<open>p\<close>:
  the remainder of the upper part is multiplied by \<open>X\<close>, the lowest coefficient
  is added, and \<open>f\<close> is subtracted once when the degree reaches 256. It is the one
  polynomial of degree below 256 that differs from \<open>p\<close> by a multiple of \<open>f\<close>, as is
  proved below.
\<close>

fun mod_f :: "nat \<Rightarrow> nat" where
  "mod_f p =
     (if p = 0 then 0
      else let r = 2 * mod_f (p div 2) XOR (if odd p then 1 else 0)
           in if bit r 256 then r XOR fpoly else r)"

declare mod_f.simps [simp del]

text \<open>Two polynomials are congruent modulo \<open>f\<close> when they differ by a multiple of \<open>f\<close>.\<close>

definition cong_f :: "nat \<Rightarrow> nat \<Rightarrow> bool" where
  "cong_f x y \<longleftrightarrow> (\<exists>q. x XOR y = clmul q fpoly)"

text \<open>Squaring in the field: the value that \<open>binaryFieldMul x x\<close> is to return.\<close>

definition gf_sq :: "nat \<Rightarrow> nat" where
  "gf_sq x = mod_f (clmul x x)"

subsection \<open>Auxiliary notions for the proofs\<close>

text \<open>The polynomial made of bit \<open>k\<close> of every word: what one pass of the comb loop adds.\<close>

definition col :: "nat \<Rightarrow> uint64 list \<Rightarrow> nat" where
  "col k ws = le_val (map (\<lambda>w. drop_bit k w AND 1) ws)"

text \<open>A multi-word shift by one bit with a carry, as lines 40--43 compute it on five words.\<close>

fun shl1 :: "uint64 \<Rightarrow> uint64 list \<Rightarrow> uint64 list" where
  "shl1 cin [] = []"
| "shl1 cin (w # ws) = (push_bit 1 w OR cin) # shl1 (drop_bit 63 w) ws"

text \<open>
  Polynomials as lists of coefficients, lowest first, with squaring modulo \<open>f\<close> by
  structural recursion only: it is used to compute \<open>X\<close> to the power \<open>2\<^sup>2\<^sup>5\<^sup>6\<close> modulo \<open>f\<close>.
\<close>

fun val_bits :: "bool list \<Rightarrow> nat" where
  "val_bits [] = 0"
| "val_bits (b # bs) = (if b then 1 else 0) + 2 * val_bits bs"

fun spread_bits :: "bool list \<Rightarrow> bool list" where
  "spread_bits [] = []"
| "spread_bits (b # bs) = b # False # spread_bits bs"

fun bxor :: "bool \<Rightarrow> bool \<Rightarrow> bool" where
  "bxor False b = b"
| "bxor True False = True"
| "bxor True True = False"

fun xor_bits :: "bool list \<Rightarrow> bool list \<Rightarrow> bool list" where
  "xor_bits [] ys = ys"
| "xor_bits (x # xs) [] = x # xs"
| "xor_bits (x # xs) (y # ys) = bxor x y # xor_bits xs ys"

definition mulr_bits :: "bool list \<Rightarrow> bool list" where
  "mulr_bits h = xor_bits h (xor_bits (False # False # h)
     (xor_bits (False # False # False # False # False # h)
        (False # False # False # False # False # False # False # False # False # False # h)))"

definition fold_bits :: "nat \<Rightarrow> bool list \<Rightarrow> bool list" where
  "fold_bits n z = xor_bits (take n z) (mulr_bits (drop n z))"

definition sq_bits :: "nat \<Rightarrow> bool list \<Rightarrow> bool list" where
  "sq_bits n x = fold_bits n (fold_bits n (spread_bits x))"

fun sq_bits_iter :: "nat \<Rightarrow> nat \<Rightarrow> bool list \<Rightarrow> bool list" where
  "sq_bits_iter 0 n x = x"
| "sq_bits_iter (Suc k) n x = sq_bits_iter k n (sq_bits n x)"

definition twice :: "nat \<Rightarrow> nat" where
  "twice n = n + n"

fun all_false :: "bool list \<Rightarrow> bool" where
  "all_false [] = True"
| "all_false (True # bs) = False"
| "all_false (False # bs) = all_false bs"

fun is_X :: "bool list \<Rightarrow> bool" where
  "is_X (False # True # bs) = all_false bs"
| "is_X bs = False"

section \<open>Carry-less multiplication\<close>

lemma clmul_0_left [simp]: "clmul 0 b = 0"
  by (simp add: clmul.simps)

lemma clmul_0_right [simp]: "clmul a 0 = 0"
  by (induction a "0::nat" rule: clmul.induct) (simp add: clmul.simps)

lemma clmul_1_left [simp]: "clmul (Suc 0) b = b"
  by (simp add: clmul.simps [of "Suc 0"])

lemma clmul_rec: "clmul a b = (if odd a then b else 0) XOR 2 * clmul (a div 2) b"
  by (cases "a = 0") (simp_all add: clmul.simps [of a])

lemma double_xor_nat: "2 * (x XOR y) = 2 * x XOR 2 * (y::nat)"
  using push_bit_xor [of 1 x y] by (simp add: push_bit_eq_mult mult.commute)

lemma clmul_double_left: "clmul (2 * a) b = 2 * clmul a b"
  by (simp add: clmul_rec [of "2 * a"])

lemma clmul_xor_right: "clmul a (b XOR c) = clmul a b XOR clmul a c"
proof (induction a b rule: clmul.induct)
  case (1 a b)
  show ?case
  proof (cases "a = 0")
    case True then show ?thesis by simp
  next
    case False
    with 1 have IH: "clmul (a div 2) (b XOR c) = clmul (a div 2) b XOR clmul (a div 2) c" by simp
    show ?thesis
      by (simp add: clmul_rec [of a] IH double_xor_nat ac_simps)
  qed
qed

lemma clmul_double_right: "clmul a (2 * b) = 2 * clmul a b"
proof (induction a b rule: clmul.induct)
  case (1 a b)
  show ?case
  proof (cases "a = 0")
    case True then show ?thesis by simp
  next
    case False
    with 1 have IH: "clmul (a div 2) (2 * b) = 2 * clmul (a div 2) b" by simp
    show ?thesis
      by (simp add: clmul_rec [of a] IH double_xor_nat)
  qed
qed

lemma nat_split_bit: "(if odd a then Suc 0 else 0) XOR 2 * (a div 2) = (a::nat)"
  by (rule bit_eqI) (auto simp add: bit_simps bit_0 bit_rec [of a] even_bit_succ_iff elim: oddE)

lemma clmul_1_right [simp]: "clmul a (Suc 0) = a"
proof (induction a "Suc 0" rule: clmul.induct)
  case (1 a)
  show ?case
  proof (cases "a = 0")
    case True then show ?thesis by simp
  next
    case False
    with 1 have IH: "clmul (a div 2) (Suc 0) = a div 2" by simp
    show ?thesis
      by (simp only: clmul_rec [of a "Suc 0"] IH nat_split_bit)
  qed
qed

lemma clmul_commute: "clmul a b = clmul b a"
proof (induction a b rule: clmul.induct)
  case (1 a b)
  show ?case
  proof (cases "a = 0")
    case True then show ?thesis by simp
  next
    case False
    with 1 have IH: "clmul (a div 2) b = clmul b (a div 2)" by simp
    have "clmul b a = clmul b ((if odd a then Suc 0 else 0) XOR 2 * (a div 2))"
      by (simp only: nat_split_bit)
    also have "\<dots> = clmul b (if odd a then Suc 0 else 0) XOR 2 * clmul b (a div 2)"
      by (simp only: clmul_xor_right clmul_double_right)
    finally show ?thesis
      by (simp add: clmul_rec [of a] IH)
  qed
qed

lemma clmul_xor_left: "clmul (a XOR b) c = clmul a c XOR clmul b c"
  by (simp add: clmul_commute [of _ c] clmul_xor_right)

lemma clmul_assoc: "clmul (clmul a b) c = clmul a (clmul b c)"
proof (induction a b rule: clmul.induct)
  case (1 a b)
  show ?case
  proof (cases "a = 0")
    case True then show ?thesis by simp
  next
    case False
    with 1 have IH: "clmul (clmul (a div 2) b) c = clmul (a div 2) (clmul b c)" by simp
    show ?thesis
      by (simp add: clmul_rec [of a] clmul_xor_left clmul_double_left IH)
  qed
qed

lemma clmul_pow2_mult_left: "clmul (2 ^ n * a) b = 2 ^ n * clmul a b"
  by (induction n) (simp_all add: clmul_double_left mult.assoc)

lemma clmul_push_bit_left: "clmul (push_bit n a) b = push_bit n (clmul a b)"
  using clmul_pow2_mult_left [of n a b] by (simp add: push_bit_eq_mult mult.commute)

lemma clmul_push_bit_right: "clmul a (push_bit n b) = push_bit n (clmul a b)"
  by (simp add: clmul_commute [of a] clmul_push_bit_left)

lemma clmul_pow2_left: "clmul (2 ^ n) b = push_bit n b"
  using clmul_push_bit_left [of n 1 b] by simp

lemma xor_nat_less_pow2: "x < 2 ^ n \<Longrightarrow> y < 2 ^ n \<Longrightarrow> x XOR y < (2::nat) ^ n"
  by (simp flip: take_bit_nat_eq_self_iff)

lemma clmul_less: "a < 2 ^ m \<Longrightarrow> b < 2 ^ n \<Longrightarrow> clmul a b < 2 ^ (m + n)"
proof (induction a b arbitrary: m rule: clmul.induct)
  case (1 a b)
  show ?case
  proof (cases "a = 0")
    case True then show ?thesis by simp
  next
    case False
    with 1(2) obtain m' where m: "m = Suc m'" by (cases m) auto
    with 1(2) have "a div 2 < 2 ^ m'" by auto
    with 1 False have IH: "clmul (a div 2) b < 2 ^ (m' + n)" by simp
    then have "2 * clmul (a div 2) b < 2 ^ (m + n)" by (simp add: m)
    moreover have "b < 2 ^ (m + n)"
      using 1(3) by (meson le_add2 less_le_trans one_le_numeral power_increasing)
    ultimately show ?thesis
      by (simp add: clmul_rec [of a] xor_nat_less_pow2)
  qed
qed

text \<open>
  The coefficient of \<open>X\<^sup>n\<close> in the product is the sum over GF(2) of the products of the
  coefficients of \<open>X\<^sup>i\<close> in \<open>a\<close> and of \<open>X\<^sup>n\<^sup>-\<^sup>i\<close> in \<open>b\<close>: \<open>clmul\<close> is the product of
  polynomials over GF(2).
\<close>

lemma coeff_set_0:
  "{i. i \<le> 0 \<and> bit a i \<and> bit b (0 - i)} = (if odd a \<and> odd b then {0::nat} else {})"
  for a b :: nat
proof (rule set_eqI)
  fix i
  show "i \<in> {i. i \<le> 0 \<and> bit a i \<and> bit b (0 - i)} \<longleftrightarrow>
    i \<in> (if odd a \<and> odd b then {0::nat} else {})"
    by (cases i) (simp_all add: bit_0)
qed

lemma coeff_set_Suc:
  "{i. i \<le> Suc m \<and> bit a i \<and> bit b (Suc m - i)} =
     (if odd a \<and> bit b (Suc m) then {0} else {}) \<union>
     Suc ` {i. i \<le> m \<and> bit (a div 2) i \<and> bit b (m - i)}"
  for a b :: nat
proof (rule set_eqI)
  fix i
  show "i \<in> {i. i \<le> Suc m \<and> bit a i \<and> bit b (Suc m - i)} \<longleftrightarrow>
    i \<in> (if odd a \<and> bit b (Suc m) then {0} else {}) \<union>
      Suc ` {i. i \<le> m \<and> bit (a div 2) i \<and> bit b (m - i)}"
    by (cases i) (auto simp add: bit_0 bit_Suc image_iff)
qed

lemma bit_clmul:
  "bit (clmul a b) n \<longleftrightarrow> odd (card {i. i \<le> n \<and> bit a i \<and> bit b (n - i)})"
proof (induction a b arbitrary: n rule: clmul.induct)
  case (1 a b)
  show ?case
  proof (cases "a = 0")
    case True
    then show ?thesis by simp
  next
    case False
    note IH = 1 [OF False]
    have r: "bit (clmul a b) n \<longleftrightarrow>
        (odd a \<and> bit b n) \<noteq> (n \<noteq> 0 \<and> bit (clmul (a div 2) b) (n - 1))" for n
      by (subst clmul_rec) (auto simp add: bit_xor_iff bit_double_iff)
    show ?thesis
    proof (cases n)
      case 0
      have "bit (clmul a b) 0 \<longleftrightarrow> odd a \<and> odd b"
        using r [of 0] by (simp add: bit_0)
      then show ?thesis
        unfolding 0 coeff_set_0 by simp
    next
      case (Suc m)
      let ?T = "{i. i \<le> m \<and> bit (a div 2) i \<and> bit b (m - i)}"
      have f: "finite ?T" by simp
      have "card ((if odd a \<and> bit b (Suc m) then {0} else {}) \<union> Suc ` ?T)
          = (if odd a \<and> bit b (Suc m) then 1 else 0) + card ?T"
        using f by (auto simp add: card_insert_if card_image)
      moreover have "bit (clmul a b) (Suc m) \<longleftrightarrow>
          (odd a \<and> bit b (Suc m)) \<noteq> odd (card ?T)"
        using r [of "Suc m"] by (simp add: IH)
      ultimately show ?thesis
        unfolding Suc coeff_set_Suc by auto
    qed
  qed
qed

section \<open>Little-endian values\<close>

lemma le_val_Nil: "le_val [] = 0" by simp

lemma unat_and_push_bit_0: "unat (w :: 'a::len word) AND push_bit LENGTH('a) (v::nat) = 0"
  by (rule bit_eqI) (auto simp add: bit_simps dest: bit_imp_le_length)

lemma le_val_Cons_or: "le_val ((w :: 'a::len word) # ws) = unat w OR push_bit LENGTH('a) (le_val ws)"
  using disjunctive_add_eq_or [OF unat_and_push_bit_0 [of w "le_val ws"]]
  by (simp add: push_bit_eq_mult mult.commute)

lemma le_val_Cons_xor: "le_val ((w :: 'a::len word) # ws) = unat w XOR push_bit LENGTH('a) (le_val ws)"
  using disjunctive_add_eq_xor [OF unat_and_push_bit_0 [of w "le_val ws"]]
  by (simp add: push_bit_eq_mult mult.commute)

lemma bit_le_val:
  "bit (le_val (ws :: 'a::len word list)) n \<longleftrightarrow>
     n div LENGTH('a) < length ws \<and> bit (ws ! (n div LENGTH('a))) (n mod LENGTH('a))"
proof (induction ws arbitrary: n)
  case Nil
  then show ?case by simp
next
  case (Cons w ws)
  show ?case
  proof (cases "n < LENGTH('a)")
    case True
    then show ?thesis
      by (simp add: le_val_Cons_or bit_simps del: le_val.simps)
  next
    case False
    then have d: "n div LENGTH('a) = Suc ((n - LENGTH('a)) div LENGTH('a))"
      and m: "(n - LENGTH('a)) mod LENGTH('a) = n mod LENGTH('a)"
      by (simp_all add: le_div_geq le_mod_geq)
    from False have "\<not> bit w n" by (auto dest: bit_imp_le_length)
    with False show ?thesis
      by (simp add: le_val_Cons_or bit_simps Cons.IH d m del: le_val.simps)
  qed
qed

lemma le_val_less: "le_val (ws :: 'a::len word list) < 2 ^ (LENGTH('a) * length ws)"
proof (induction ws)
  case Nil then show ?case by simp
next
  case (Cons w ws)
  have "unat w + 2 ^ LENGTH('a) * le_val ws < 2 ^ LENGTH('a) + 2 ^ LENGTH('a) * le_val ws"
    by simp
  also have "\<dots> = 2 ^ LENGTH('a) * (le_val ws + 1)"
    by simp
  also have "\<dots> \<le> 2 ^ LENGTH('a) * 2 ^ (LENGTH('a) * length ws)"
    using Cons by (intro mult_le_mono2) simp
  finally show ?case by (simp add: power_add)
qed

lemma le_val_replicate_0 [simp]: "le_val (replicate n 0) = 0"
  by (induction n) simp_all

lemma le_val_append:
  "le_val (xs @ ys) = le_val xs + 2 ^ (LENGTH('a) * length xs) * le_val (ys :: 'a::len word list)"
  by (induction xs) (simp_all add: power_add algebra_simps)

lemma le_val_update_xor:
  "i < length ws \<Longrightarrow>
   le_val (ws[i := ws ! i XOR x]) = le_val ws XOR push_bit (LENGTH('a) * i) (unat (x :: 'a::len word))"
proof (induction ws arbitrary: i)
  case Nil then show ?case by simp
next
  case (Cons w ws)
  show ?case
  proof (cases i)
    case 0
    then show ?thesis
      by (simp add: le_val_Cons_xor unsigned_xor_eq ac_simps del: le_val.simps)
  next
    case (Suc j)
    with Cons.prems have j: "j < length ws" by simp
    have "le_val ((w # ws)[i := (w # ws) ! i XOR x])
        = unat w XOR push_bit LENGTH('a) (le_val (ws[j := ws ! j XOR x]))"
      by (simp add: Suc le_val_Cons_xor del: le_val.simps)
    also have "\<dots> = unat w XOR push_bit LENGTH('a) (le_val ws XOR push_bit (LENGTH('a) * j) (unat x))"
      by (simp only: Cons.IH [OF j])
    also have "\<dots> = le_val (w # ws) XOR push_bit (LENGTH('a) * i) (unat x)"
      by (simp add: Suc le_val_Cons_xor push_bit_xor push_bit_push_bit ac_simps del: le_val.simps)
    finally show ?thesis .
  qed
qed

lemma le_val_update_or:
  "i < length ws \<Longrightarrow>
   le_val (ws[i := ws ! i OR x]) = le_val ws OR push_bit (LENGTH('a) * i) (unat (x :: 'a::len word))"
proof (induction ws arbitrary: i)
  case Nil then show ?case by simp
next
  case (Cons w ws)
  show ?case
  proof (cases i)
    case 0
    then show ?thesis
      by (simp add: le_val_Cons_or unsigned_or_eq ac_simps del: le_val.simps)
  next
    case (Suc j)
    with Cons.prems have j: "j < length ws" by simp
    have "le_val ((w # ws)[i := (w # ws) ! i OR x])
        = unat w OR push_bit LENGTH('a) (le_val (ws[j := ws ! j OR x]))"
      by (simp add: Suc le_val_Cons_or del: le_val.simps)
    also have "\<dots> = unat w OR push_bit LENGTH('a) (le_val ws OR push_bit (LENGTH('a) * j) (unat x))"
      by (simp only: Cons.IH [OF j])
    also have "\<dots> = le_val (w # ws) OR push_bit (LENGTH('a) * i) (unat x)"
      by (simp add: Suc le_val_Cons_or push_bit_or push_bit_push_bit ac_simps del: le_val.simps)
    finally show ?thesis .
  qed
qed

section \<open>Remainders modulo \<open>f\<close>\<close>

lemma xor_nat_cancel: "(x::nat) XOR y = z \<longleftrightarrow> x = z XOR y"
  by (metis xor.assoc xor.right_neutral xor_self_eq)

lemma cong_f_refl [simp]: "cong_f x x"
  unfolding cong_f_def by (rule exI [of _ 0]) simp

lemma cong_f_sym: "cong_f x y \<Longrightarrow> cong_f y x"
  unfolding cong_f_def by (simp add: xor.commute)

lemma cong_f_trans: "cong_f x y \<Longrightarrow> cong_f y z \<Longrightarrow> cong_f x z"
proof -
  assume "cong_f x y" "cong_f y z"
  then obtain q1 q2 where q: "x XOR y = clmul q1 fpoly" "y XOR z = clmul q2 fpoly"
    unfolding cong_f_def by blast
  have "x XOR z = (x XOR y) XOR (y XOR z)"
    by (metis xor.assoc xor.left_neutral xor_self_eq)
  also have "\<dots> = clmul (q1 XOR q2) fpoly"
    by (simp only: q clmul_xor_left)
  finally show ?thesis unfolding cong_f_def by blast
qed

lemma cong_f_xor: "cong_f x x' \<Longrightarrow> cong_f y y' \<Longrightarrow> cong_f (x XOR y) (x' XOR y')"
proof -
  assume "cong_f x x'" "cong_f y y'"
  then obtain q1 q2 where q: "x XOR x' = clmul q1 fpoly" "y XOR y' = clmul q2 fpoly"
    unfolding cong_f_def by blast
  have "(x XOR y) XOR (x' XOR y') = (x XOR x') XOR (y XOR y')"
    by (simp add: ac_simps)
  also have "\<dots> = clmul (q1 XOR q2) fpoly"
    by (simp only: q clmul_xor_left)
  finally show ?thesis unfolding cong_f_def by blast
qed

lemma cong_f_clmul_left: "cong_f x x' \<Longrightarrow> cong_f (clmul x z) (clmul x' z)"
proof -
  assume "cong_f x x'"
  then obtain q where q: "x XOR x' = clmul q fpoly"
    unfolding cong_f_def by blast
  have "clmul x z XOR clmul x' z = clmul (x XOR x') z"
    by (simp only: clmul_xor_left)
  also have "\<dots> = clmul (clmul q z) fpoly"
    by (simp only: q clmul_assoc clmul_commute [of fpoly z])
  finally show ?thesis unfolding cong_f_def by blast
qed

lemma cong_f_clmul: "cong_f x x' \<Longrightarrow> cong_f y y' \<Longrightarrow> cong_f (clmul x y) (clmul x' y')"
  using cong_f_clmul_left [of x x' y] cong_f_clmul_left [of y y' x']
  by (auto simp add: clmul_commute [of x'] intro: cong_f_trans)

lemma cong_f_fpoly: "cong_f (x XOR fpoly) x"
  unfolding cong_f_def by (rule exI [of _ 1]) (simp add: ac_simps)

lemma nat_less_pow2_Suc_iff:
  assumes "(x::nat) < 2 ^ Suc n"
  shows "x < 2 ^ n \<longleftrightarrow> \<not> bit x n"
proof -
  from assms have "take_bit (Suc n) x = x" by (simp only: take_bit_nat_eq_self_iff)
  then have x: "x = 2 ^ n * of_bool (bit x n) + take_bit n x"
    using take_bit_Suc_from_most [of n x] by simp
  have t: "take_bit n x < 2 ^ n" by simp
  show ?thesis
  proof (cases "bit x n")
    case True
    with x have "2 ^ n \<le> x" by simp
    with True show ?thesis by simp
  next
    case False
    with x t show ?thesis by simp
  qed
qed

lemma mod_f_less: "mod_f p < 2 ^ 256"
proof (induction p rule: mod_f.induct)
  case (1 p)
  show ?case
  proof (cases "p = 0")
    case True then show ?thesis by (simp add: mod_f.simps)
  next
    case False
    define r where "r = 2 * mod_f (p div 2) XOR (if odd p then 1 else 0)"
    from 1 False have "mod_f (p div 2) < 2 ^ 256" by simp
    then have "2 * mod_f (p div 2) < 2 ^ Suc 256" by simp
    moreover have "(if odd p then 1 else 0 :: nat) < 2 ^ Suc 256" by simp
    ultimately have r: "r < 2 ^ Suc 256"
      unfolding r_def by (rule xor_nat_less_pow2)
    have f: "fpoly < 2 ^ Suc 256" "bit fpoly 256"
      by (simp_all add: fpoly_def bit_iff_odd)
    have m: "mod_f p = (if bit r 256 then r XOR fpoly else r)"
      using False by (simp add: mod_f.simps [of p] r_def Let_def)
    show ?thesis
    proof (cases "bit r 256")
      case True
      have "r XOR fpoly < 2 ^ Suc 256" using r f(1) by (rule xor_nat_less_pow2)
      moreover have "\<not> bit (r XOR fpoly) 256" using True f(2) by (simp add: bit_xor_iff)
      ultimately show ?thesis using m True nat_less_pow2_Suc_iff [of "r XOR fpoly" 256] by simp
    next
      case False
      then show ?thesis using m r nat_less_pow2_Suc_iff [of r 256] by simp
    qed
  qed
qed

lemma mod_f_cong: "cong_f (mod_f p) p"
proof (induction p rule: mod_f.induct)
  case (1 p)
  show ?case
  proof (cases "p = 0")
    case True then show ?thesis by (simp add: mod_f.simps)
  next
    case False
    define r where "r = 2 * mod_f (p div 2) XOR (if odd p then 1 else 0)"
    from 1 False have "cong_f (mod_f (p div 2)) (p div 2)" by simp
    then have "cong_f (clmul 2 (mod_f (p div 2))) (clmul 2 (p div 2))"
      by (intro cong_f_clmul) simp_all
    then have "cong_f (2 * mod_f (p div 2)) (2 * (p div 2))"
      using clmul_double_left [of 1] by simp
    then have "cong_f r (2 * (p div 2) XOR (if odd p then 1 else 0))"
      unfolding r_def by (intro cong_f_xor) simp_all
    also have "2 * (p div 2) XOR (if odd p then 1 else 0) = p"
      using nat_split_bit [of p] by (simp only: xor.commute One_nat_def)
    finally have r: "cong_f r p" .
    have m: "mod_f p = (if bit r 256 then r XOR fpoly else r)"
      using False by (simp add: mod_f.simps [of p] r_def Let_def)
    show ?thesis
      using r cong_f_trans [OF cong_f_fpoly r] by (simp add: m)
  qed
qed

lemma xor_nat_ge_pow2:
  assumes "y < 2 ^ n" "2 ^ n \<le> x"
  shows "(2::nat) ^ n \<le> x XOR y"
proof (rule ccontr)
  assume "\<not> 2 ^ n \<le> x XOR y"
  then have "x XOR y < 2 ^ n" by simp
  from this assms(1) have "(x XOR y) XOR y < 2 ^ n" by (rule xor_nat_less_pow2)
  then have "x < 2 ^ n" by (simp add: xor.assoc)
  with assms(2) show False by simp
qed

lemma fpoly_bounds: "fpoly < 2 ^ 257" "2 ^ 256 \<le> fpoly"
  by (simp_all add: fpoly_def)

lemma clmul_fpoly_ge: "q \<noteq> 0 \<Longrightarrow> 2 ^ 256 \<le> clmul q fpoly"
proof (induction q fpoly rule: clmul.induct)
  case (1 q)
  show ?case
  proof (cases "q div 2 = 0")
    case True
    with 1(2) have "q = 1" by (cases q) auto
    then show ?thesis using fpoly_bounds(2) by simp
  next
    case False
    with 1 have "2 ^ 256 \<le> clmul (q div 2) fpoly" by simp
    then have "2 ^ 257 \<le> 2 * clmul (q div 2) fpoly" by simp
    moreover have "(if odd q then fpoly else 0) < 2 ^ 257"
      using fpoly_bounds(1) by simp
    ultimately have "2 ^ 257 \<le> 2 * clmul (q div 2) fpoly XOR (if odd q then fpoly else 0)"
      by (intro xor_nat_ge_pow2)
    then have "2 ^ 257 \<le> clmul q fpoly"
      by (simp only: clmul_rec [of q] xor.commute)
    then show ?thesis by simp
  qed
qed

lemma cong_f_unique:
  assumes "cong_f x y" "x < 2 ^ 256" "y < 2 ^ 256"
  shows "x = y"
proof -
  from assms(1) obtain q where q: "x XOR y = clmul q fpoly"
    unfolding cong_f_def by blast
  have "x XOR y < 2 ^ 256" using assms(2,3) by (rule xor_nat_less_pow2)
  with q clmul_fpoly_ge [of q] have "q = 0" by (cases "q = 0") auto
  with q have "x XOR y = 0" by simp
  then show ?thesis using xor_nat_cancel [of x y 0] by simp
qed

lemma mod_f_unique: "r < 2 ^ 256 \<Longrightarrow> cong_f r p \<Longrightarrow> mod_f p = r"
  by (rule cong_f_unique [OF _ mod_f_less]) (auto intro: cong_f_trans mod_f_cong cong_f_sym)

lemma mod_f_id: "x < 2 ^ 256 \<Longrightarrow> mod_f x = x"
  by (rule mod_f_unique) simp_all

lemma mod_f_eq_iff: "mod_f x = mod_f y \<longleftrightarrow> cong_f x y"
proof
  assume "mod_f x = mod_f y"
  then show "cong_f x y"
    by (metis cong_f_sym cong_f_trans mod_f_cong)
next
  assume "cong_f x y"
  then have "cong_f (mod_f y) x"
    by (meson cong_f_sym cong_f_trans mod_f_cong)
  then show "mod_f x = mod_f y"
    by (intro mod_f_unique mod_f_less)
qed

lemma mod_f_xor: "mod_f (x XOR y) = mod_f x XOR mod_f y"
proof (rule mod_f_unique)
  show "mod_f x XOR mod_f y < 2 ^ 256"
    by (intro xor_nat_less_pow2 mod_f_less)
  show "cong_f (mod_f x XOR mod_f y) (x XOR y)"
    by (intro cong_f_xor mod_f_cong)
qed

lemma mod_f_clmul_mod_f_left: "mod_f (clmul (mod_f x) y) = mod_f (clmul x y)"
  unfolding mod_f_eq_iff by (intro cong_f_clmul mod_f_cong cong_f_refl)

lemma mod_f_clmul_mod_f_right: "mod_f (clmul x (mod_f y)) = mod_f (clmul x y)"
  unfolding mod_f_eq_iff by (intro cong_f_clmul mod_f_cong cong_f_refl)

section \<open>The comb loop\<close>

lemma comb_mask_eq: "comb_mask a j k = (if bit (a ! j) k then - 1 else 0)"
proof -
  have "drop_bit k (a ! j) AND 1 = (if bit (a ! j) k then 1 else 0)"
    by (simp add: and_one_eq bit_iff_odd_drop_bit mod_2_eq_odd)
  then show ?thesis by (simp add: comb_mask_def)
qed

lemma le_val_map_and_ones: "le_val (map (\<lambda>w. w AND - 1) b) = le_val b"
  by simp

lemma le_val_map_zero: "le_val (map (\<lambda>w. 0) b) = 0"
  by (induction b) simp_all

lemma comb_add_val:
  "i \<le> 5 \<Longrightarrow> length b = 5 \<Longrightarrow> j + 4 < length c \<Longrightarrow>
   length (comb_add i j m b c) = length c \<and>
   le_val (comb_add i j m b c) =
     le_val c XOR push_bit (64 * (j + i)) (le_val (map (\<lambda>w. w AND m) (drop i b)))"
proof (induction i j m b c rule: comb_add.induct)
  case (1 i j m b c)
  show ?case
  proof (cases "i < 5")
    case False
    then have "comb_add i j m b c = c" by (subst comb_add.simps) simp
    with False 1(2,3) show ?thesis by simp
  next
    case True
    define c' where "c' = c[j + i := c ! (j + i) XOR (b ! i AND m)]"
    from True 1(4) have ji: "j + i < length c" by simp
    from True 1 have IH: "length (comb_add (i + 1) j m b c') = length c' \<and>
      le_val (comb_add (i + 1) j m b c') =
      le_val c' XOR push_bit (64 * (j + (i + 1))) (le_val (map (\<lambda>w. w AND m) (drop (i + 1) b)))"
      unfolding c'_def by simp
    have c': "le_val c' = le_val c XOR push_bit (64 * (j + i)) (unat (b ! i AND m))"
      unfolding c'_def using le_val_update_xor [OF ji] by simp
    have d: "drop i b = b ! i # drop (i + 1) b"
      using True 1(3) by (simp add: Cons_nth_drop_Suc)
    have "le_val (map (\<lambda>w. w AND m) (drop i b)) =
        unat (b ! i AND m) XOR push_bit 64 (le_val (map (\<lambda>w. w AND m) (drop (i + 1) b)))"
      by (simp only: d list.map le_val_Cons_xor) simp
    then have "push_bit (64 * (j + i)) (le_val (map (\<lambda>w. w AND m) (drop i b))) =
        push_bit (64 * (j + i)) (unat (b ! i AND m)) XOR
        push_bit (64 * (j + (i + 1))) (le_val (map (\<lambda>w. w AND m) (drop (i + 1) b)))"
      by (simp add: push_bit_xor push_bit_push_bit algebra_simps)
    moreover have "length c' = length c" by (simp add: c'_def)
    ultimately show ?thesis using IH c' True
      by (simp add: comb_add.simps [of i] c'_def [symmetric] xor.assoc)
  qed
qed

lemma unat_bit_sel: "unat (drop_bit k (w::uint64) AND 1) = (if bit w k then 1 else 0)"
  by (simp add: and_one_eq bit_iff_odd_drop_bit mod_2_eq_odd)

lemma comb_words_val:
  "j \<le> 4 \<Longrightarrow> length a = 4 \<Longrightarrow> length b = 5 \<Longrightarrow> length c = 8 \<Longrightarrow>
   length (comb_words j k a b c) = 8 \<and>
   le_val (comb_words j k a b c) =
     le_val c XOR push_bit (64 * j) (clmul (col k (drop j a)) (le_val b))"
proof (induction j k a b c rule: comb_words.induct)
  case (1 j k a b c)
  show ?case
  proof (cases "j < 4")
    case False
    then have "comb_words j k a b c = c" by (subst comb_words.simps) simp
    with False 1(2,3,5) show ?thesis by (simp add: col_def)
  next
    case True
    define c' where "c' = comb_add 0 j (comb_mask a j k) b c"
    have c': "length c' = 8"
      "le_val c' = le_val c XOR push_bit (64 * j) (if bit (a ! j) k then le_val b else 0)"
      using comb_add_val [of 0 b j c "comb_mask a j k"] True 1(4,5)
      by (simp_all add: c'_def comb_mask_eq le_val_map_zero)
    from True 1 c'(1) have IH: "length (comb_words (j + 1) k a b c') = 8 \<and>
      le_val (comb_words (j + 1) k a b c') =
      le_val c' XOR push_bit (64 * (j + 1)) (clmul (col k (drop (j + 1) a)) (le_val b))"
      unfolding c'_def by simp
    have d: "drop j a = a ! j # drop (j + 1) a"
      using True 1(3) by (simp add: Cons_nth_drop_Suc)
    have "col k (drop j a) = (if bit (a ! j) k then 1 else 0) XOR push_bit 64 (col k (drop (j + 1) a))"
      unfolding col_def by (simp only: d list.map le_val_Cons_xor unat_bit_sel) simp
    then have "clmul (col k (drop j a)) (le_val b) =
       (if bit (a ! j) k then le_val b else 0) XOR push_bit 64 (clmul (col k (drop (j + 1) a)) (le_val b))"
      by (simp add: clmul_xor_left clmul_push_bit_left)
    then have "push_bit (64 * j) (clmul (col k (drop j a)) (le_val b)) =
       push_bit (64 * j) (if bit (a ! j) k then le_val b else 0) XOR
       push_bit (64 * (j + 1)) (clmul (col k (drop (j + 1) a)) (le_val b))"
      by (simp add: push_bit_xor push_bit_push_bit algebra_simps)
    with IH c' True show ?thesis
      by (simp add: comb_words.simps [of j] c'_def [symmetric] xor.assoc)
  qed
qed

lemma shift_b_shl1:
  assumes "length b = 5"
  shows "shift_b b = shl1 0 b"
proof -
  from assms obtain b0 b1 b2 b3 b4 where b: "b = [b0, b1, b2, b3, b4]"
    by (auto simp add: length_Suc_conv eval_nat_numeral)
  show ?thesis
    by (simp add: b shift_b_def eval_nat_numeral)
qed

lemma length_shl1 [simp]: "length (shl1 cin ws) = length ws"
  by (induction ws arbitrary: cin) simp_all

lemma unat_shl_or_carry:
  "unat cin \<le> 1 \<Longrightarrow> unat (push_bit 1 (w::uint64) OR cin) = (2 * unat w) mod 2 ^ 64 + unat cin"
proof -
  assume c: "unat cin \<le> 1"
  have "push_bit 1 w AND cin = 0"
  proof (rule bit_eqI)
    fix n
    from c have "unat cin = 0 \<or> unat cin = 1" by linarith
    then have "cin = 0 \<or> cin = 1"
      by (auto simp add: word_unat_eq_iff)
    then show "bit (push_bit 1 w AND cin) n = bit (0::uint64) n"
      by (auto simp add: bit_simps bit_1_iff bit_0)
  qed
  then have "push_bit 1 w OR cin = push_bit 1 w + cin"
    by (simp add: disjunctive_add_eq_or)
  moreover have "unat (push_bit 1 w) = (2 * unat w) mod 2 ^ 64"
  proof -
    have "unat (push_bit 1 w) = take_bit 64 (push_bit 1 (unat w))"
      by (simp only: unsigned_push_bit_eq) simp
    then show ?thesis
      by (simp add: take_bit_eq_mod push_bit_eq_mult mult.commute)
  qed
  moreover have "(2 * unat w) mod 2 ^ 64 + unat cin < 2 ^ 64"
  proof -
    have "(2 * unat w) mod (2 * 2 ^ 63) = 2 * (unat w mod 2 ^ 63)"
      by (simp only: mult_mod_right)
    moreover have "unat w mod 2 ^ 63 < 2 ^ 63" by simp
    ultimately show ?thesis using c by simp
  qed
  ultimately show ?thesis
    by (simp add: unat_word_ariths)
qed

lemma unat_double_or_carry:
  "unat cin \<le> 1 \<Longrightarrow> unat ((w::uint64) * 2 OR cin) = (2 * unat w) mod 2 ^ 64 + unat cin"
  using unat_shl_or_carry [of cin w] by simp

lemma double_div_mod_nat: "2 * x = (2 * x) mod (2 * q) + (2 * q) * (x div q)" for x q :: nat
proof -
  have "(2 * x) mod (2 * q) = 2 * (x mod q)"
    by (simp only: mult_mod_right)
  moreover have "x = x mod q + q * (x div q)"
    by simp
  ultimately show ?thesis
    by (metis distrib_left mult.assoc)
qed

lemma double_less_pow2: "x < 2 ^ n \<Longrightarrow> 2 * x < (2::nat) ^ (n + 1)"
  by simp

lemma le_val_shl1:
  "unat cin \<le> 1 \<Longrightarrow> 2 * le_val ws + unat cin < 2 ^ (64 * length ws) \<Longrightarrow>
   le_val (shl1 cin ws) = 2 * le_val ws + unat cin"
proof (induction ws arbitrary: cin)
  case Nil
  then show ?case by simp
next
  case (Cons w ws)
  define d where "d = unat w div 2 ^ 63"
  define m where "m = (2 * unat w) mod 2 ^ 64"
  define V where "V = le_val ws"
  define P where "P = (2::nat) ^ (64 * length ws)"
  have dm: "2 * unat w = m + 2 ^ 64 * d"
    unfolding d_def m_def using double_div_mod_nat [of "unat w" "2 ^ 63"] by simp
  have "unat w < 2 * 2 ^ 63"
    using unsigned_less [of w, where ?'a = nat] by simp
  then have "d < 2"
    unfolding d_def by (intro less_mult_imp_div_less) simp
  then have "d \<le> 1" by simp
  moreover have "unat (drop_bit 63 w) = d"
    unfolding d_def by (simp only: unat_drop_bit_eq) (simp only: drop_bit_eq_div)
  ultimately have d1: "unat (drop_bit 63 w) = d" "d \<le> 1" by simp_all
  from Cons.prems(2) have "2 * (unat w + 2 ^ 64 * V) + unat cin < 2 ^ 64 * P"
    by (simp add: V_def P_def power_add)
  with dm have "2 ^ 64 * (2 * V + d) < 2 ^ 64 * P" by simp
  then have "2 * V + d < P" by simp
  then have IH: "le_val (shl1 (drop_bit 63 w) ws) = 2 * V + d"
    using Cons.IH [of "drop_bit 63 w"] d1 by (simp add: V_def P_def)
  have "le_val (shl1 cin (w # ws)) = (m + unat cin) + 2 ^ 64 * (2 * V + d)"
    by (simp add: IH unat_double_or_carry [OF Cons.prems(1)] m_def)
  also have "\<dots> = (m + 2 ^ 64 * d) + 2 * (2 ^ 64 * V) + unat cin"
    by (simp only: distrib_left mult.left_commute add_ac)
  also have "\<dots> = 2 * (unat w + 2 ^ 64 * V) + unat cin"
    by (simp only: dm [symmetric] distrib_left)
  also have "\<dots> = 2 * le_val (w # ws) + unat cin"
    by (simp add: V_def)
  finally show ?case .
qed

lemma shift_b_val:
  assumes "length b = 5" "le_val b < 2 ^ 319"
  shows "length (shift_b b) = 5" "le_val (shift_b b) = 2 * le_val b"
  using assms le_val_shl1 [of 0 b] by (simp_all add: shift_b_shl1)

lemma col_split:
  "le_val (map (drop_bit k) (a :: uint64 list)) = col k a XOR 2 * le_val (map (drop_bit (Suc k)) a)"
proof (induction a)
  case Nil
  then show ?case by (simp add: col_def)
next
  case (Cons w ws)
  have w1: "unat (drop_bit k w) = drop_bit k (unat w)"
    by (simp only: unat_drop_bit_eq)
  have "unat (drop_bit (Suc k) w) = drop_bit (Suc k) (unat w)"
    by (rule unat_drop_bit_eq)
  then have w2: "unat (drop_bit (Suc k) w) = drop_bit k (unat w) div 2"
    by (simp only: drop_bit_Suc drop_bit_half)
  have w3: "bit w k = odd (drop_bit k (unat w))"
    by (simp add: bit_simps flip: bit_iff_odd_drop_bit)
  have w: "unat (drop_bit k w) = (if bit w k then 1 else 0) XOR 2 * unat (drop_bit (Suc k) w)"
    using nat_split_bit [of "drop_bit k (unat w)"] by (simp only: w1 w2 w3 One_nat_def)
  have "le_val (map (drop_bit k) (w # ws)) =
      unat (drop_bit k w) XOR push_bit 64 (le_val (map (drop_bit k) ws))"
    by (simp only: list.map le_val_Cons_xor) simp
  also have "\<dots> = ((if bit w k then 1 else 0) XOR push_bit 64 (col k ws)) XOR
      2 * (unat (drop_bit (Suc k) w) XOR push_bit 64 (le_val (map (drop_bit (Suc k)) ws)))"
    by (simp only: Cons.IH w double_xor_nat push_bit_xor)
      (simp add: push_bit_eq_mult ac_simps)
  also have "\<dots> = col k (w # ws) XOR 2 * le_val (map (drop_bit (Suc k)) (w # ws))"
    unfolding col_def by (simp only: list.map le_val_Cons_xor unat_bit_sel) simp
  finally show ?case .
qed

lemma le_val_map_drop_bit_64: "le_val (map (drop_bit 64) (a :: uint64 list)) = 0"
  by (induction a) (simp_all add: drop_bit_word_beyond)

lemma comb_loop_val:
  "k \<le> 64 \<Longrightarrow> length a = 4 \<Longrightarrow> length b = 5 \<Longrightarrow> length c = 8 \<Longrightarrow>
   le_val b < 2 ^ (256 + k) \<Longrightarrow>
   length (comb_loop k a b c) = 8 \<and>
   le_val (comb_loop k a b c) = le_val c XOR clmul (le_val (map (drop_bit k) a)) (le_val b)"
proof (induction k a b c rule: comb_loop.induct)
  case (1 k a b c)
  show ?case
  proof (cases "k < 64")
    case False
    then have "comb_loop k a b c = c" by (subst comb_loop.simps) simp
    moreover from False 1(2) have "k = 64" by simp
    ultimately show ?thesis using 1(5) by (simp add: le_val_map_zero)
  next
    case True
    define c' where "c' = comb_words 0 k a b c"
    define b' where "b' = shift_b b"
    have c': "length c' = 8" "le_val c' = le_val c XOR clmul (col k a) (le_val b)"
      using comb_words_val [of 0 a b c k] 1(3,4,5) by (simp_all add: c'_def)
    have "(2::nat) ^ (256 + k) \<le> 2 ^ 319"
      using True by (intro power_increasing) simp_all
    with 1(6) have "le_val b < 2 ^ 319" by linarith
    then have b': "length b' = 5" "le_val b' = 2 * le_val b"
      using shift_b_val [of b] 1(4) by (simp_all add: b'_def)
    have "le_val b' < 2 ^ (256 + k + 1)"
      unfolding b'(2) using 1(6) by (rule double_less_pow2)
    then have "le_val b' < 2 ^ (256 + (k + 1))" by (simp only: add.assoc)
    with True 1(1) [of ] 1(2,3) b' c' have IH: "length (comb_loop (k + 1) a b' c') = 8 \<and>
      le_val (comb_loop (k + 1) a b' c') =
      le_val c' XOR clmul (le_val (map (drop_bit (k + 1)) a)) (le_val b')"
      unfolding b'_def c'_def by simp
    have "clmul (le_val (map (drop_bit k) a)) (le_val b) =
        clmul (col k a) (le_val b) XOR clmul (le_val (map (drop_bit (k + 1)) a)) (le_val b')"
      by (simp add: col_split [of k a] clmul_xor_left clmul_double_left clmul_double_right b'(2))
    with IH c' True show ?thesis
      by (simp add: comb_loop.simps [of k] c'_def [symmetric] b'_def [symmetric] xor.assoc)
  qed
qed

section \<open>Packing and unpacking\<close>

lemma nat_and_7: "(i::nat) AND 7 = i mod 8"
  using take_bit_eq_mask [of 3 i] by (simp add: take_bit_eq_mod mask_eq_exp_minus_1)

lemma byte_offset: "push_bit 3 ((i::nat) AND 7) = 8 * (i mod 8)"
  by (simp add: nat_and_7 push_bit_eq_mult)

lemma nat_and_push_bit_0:
  assumes "x < 2 ^ n"
  shows "x AND push_bit n (y::nat) = 0"
proof (rule bit_eqI)
  fix m
  from assms have "take_bit n x = x" by (rule take_bit_nat_eq_self)
  then have "bit x m \<longleftrightarrow> m < n \<and> bit x m"
    by (metis bit_take_bit_iff)
  then show "bit (x AND push_bit n y) m = bit (0::nat) m"
    by (auto simp add: bit_simps)
qed

lemma nat_add_push_or: "x < 2 ^ n \<Longrightarrow> x + 2 ^ n * y = x OR push_bit n (y::nat)"
  using disjunctive_add_eq_or [OF nat_and_push_bit_0, of x n y]
  by (simp add: push_bit_eq_mult mult.commute)

lemma nat_add_push_xor: "x < 2 ^ n \<Longrightarrow> x + 2 ^ n * y = x XOR push_bit n (y::nat)"
  using disjunctive_add_eq_xor [OF nat_and_push_bit_0, of x n y]
  by (simp add: push_bit_eq_mult mult.commute)

lemma unat_byte_shift:
  assumes "s \<le> 56"
  shows "unat (push_bit s (ucast (x::byte) :: uint64)) = push_bit s (unat x)"
proof -
  have "unat x < 2 ^ 8" using unsigned_less [of x, where ?'a = nat] by simp
  then have "push_bit s (unat x) < 2 ^ (8 + s)"
    by (simp add: push_bit_eq_mult power_add)
  also have "(2::nat) ^ (8 + s) \<le> 2 ^ 64"
    using assms by (intro power_increasing) simp_all
  finally have "take_bit 64 (push_bit s (unat x)) = push_bit s (unat x)"
    by (simp only: take_bit_nat_eq_self_iff)
  moreover have "unat (ucast x :: uint64) = unat x"
    by (simp add: unsigned_ucast_eq take_bit_nat_eq_self_iff unsigned_less [of x, where ?'a = nat, simplified] less_trans [OF \<open>unat x < 2 ^ 8\<close>])
  ultimately show ?thesis
    by (simp add: unsigned_push_bit_eq)
qed

lemma pack_step_val:
  assumes "i < 32" "i < length (A :: byte list)" "length (a :: uint64 list) = n" "4 \<le> n" "le_val a = le_val (take i A)"
  shows "le_val (a[drop_bit 3 i := a ! drop_bit 3 i OR push_bit (push_bit 3 (i AND 7)) (ucast (A ! i))])
       = le_val (take (Suc i) A)"
proof -
  have d: "drop_bit 3 i = i div 8" by (simp add: drop_bit_eq_div)
  have lt: "i div 8 < length a" using assms(1,3,4) by simp
  have s: "8 * (i mod 8) \<le> 56" by simp
  have "le_val (a[drop_bit 3 i := a ! drop_bit 3 i OR push_bit (push_bit 3 (i AND 7)) (ucast (A ! i))])
      = le_val a OR push_bit (64 * (i div 8)) (push_bit (8 * (i mod 8)) (unat (A ! i)))"
    unfolding d byte_offset using le_val_update_or [OF lt] unat_byte_shift [OF s] by simp
  also have "\<dots> = le_val (take i A) OR push_bit (8 * i) (unat (A ! i))"
  proof -
    have "64 * (i div 8) + 8 * (i mod 8) = 8 * i"
      using mult_div_mod_eq [of 8 i] by linarith
    then show ?thesis by (simp add: assms(5) push_bit_push_bit add.commute)
  qed
  also have "\<dots> = le_val (take i A) + 2 ^ (8 * i) * unat (A ! i)"
  proof -
    have "le_val (take i A) < 2 ^ (8 * i)"
      using le_val_less [of "take i A"] assms(2) by simp
    then show ?thesis by (rule nat_add_push_or [symmetric])
  qed
  also have "\<dots> = le_val (take (Suc i) A)"
    using assms(2) by (simp add: take_Suc_conv_app_nth le_val_append)
  finally show ?thesis .
qed

lemma pack_loop_val:
  "i \<le> 32 \<Longrightarrow> 32 \<le> length A \<Longrightarrow> 32 \<le> length B \<Longrightarrow> length a = 4 \<Longrightarrow> length b = 5 \<Longrightarrow>
   le_val a = le_val (take i A) \<Longrightarrow> le_val b = le_val (take i B) \<Longrightarrow>
   \<exists>a' b'. pack_loop i A B a b = Inr (a', b') \<and> length a' = 4 \<and> length b' = 5 \<and>
     le_val a' = le_val (take 32 A) \<and> le_val b' = le_val (take 32 B)"
proof (induction i A B a b rule: pack_loop.induct)
  case (1 i A B a b)
  show ?case
  proof (cases "i < 32")
    case False
    then have "pack_loop i A B a b = Inr (a, b)" by (subst pack_loop.simps) simp
    moreover from False 1(2) have "i = 32" by simp
    ultimately show ?thesis using 1 by simp
  next
    case True
    define a' where "a' = a[drop_bit 3 i := a ! drop_bit 3 i OR push_bit (push_bit 3 (i AND 7)) (ucast (A ! i))]"
    define b' where "b' = b[drop_bit 3 i := b ! drop_bit 3 i OR push_bit (push_bit 3 (i AND 7)) (ucast (B ! i))]"
    from True 1(3,4) have iA: "i < length A" and iB: "i < length B" by simp_all
    have a': "length a' = 4" "le_val a' = le_val (take (i + 1) A)"
      using pack_step_val [OF True iA 1(5) _ 1(7)] 1(5) by (simp_all add: a'_def)
    have b': "length b' = 5" "le_val b' = le_val (take (i + 1) B)"
      using pack_step_val [OF True iB 1(6) _ 1(8)] 1(6) by (simp_all add: b'_def)
    have "\<exists>a'' b''. pack_loop (i + 1) A B a' b' = Inr (a'', b'') \<and> length a'' = 4 \<and> length b'' = 5 \<and>
        le_val a'' = le_val (take 32 A) \<and> le_val b'' = le_val (take 32 B)"
      using 1(1) [OF True _ a'_def _ b'_def] iA iB True 1(3,4) a' b' by simp
    moreover have "pack_loop i A B a b = pack_loop (i + 1) A B a' b'"
      using True iA iB by (subst pack_loop.simps) (simp add: a'_def b'_def Let_def)
    ultimately show ?thesis by simp
  qed
qed

lemma unpack_loop_nth:
  "i \<le> 32 \<Longrightarrow> length C = 32 \<Longrightarrow>
   length (unpack_loop i c C) = 32 \<and>
   (\<forall>m<32. unpack_loop i c C ! m =
      (if m < i then C ! m else ucast (drop_bit (8 * (m mod 8)) (c ! (m div 8)))))"
proof (induction i c C rule: unpack_loop.induct)
  case (1 i c C)
  show ?case
  proof (cases "i < 32")
    case False
    then have "unpack_loop i c C = C" by (subst unpack_loop.simps) simp
    with False 1(2,3) show ?thesis by simp
  next
    case True
    define C' where "C' = C[i := ucast (drop_bit (push_bit 3 (i AND 7)) (c ! drop_bit 3 i))]"
    have d: "drop_bit 3 i = i div 8" by (simp add: drop_bit_eq_div)
    have e: "C' = C[i := ucast (drop_bit (8 * (i mod 8)) (c ! (i div 8)))]"
      unfolding C'_def byte_offset d ..
    have C': "length C' = 32" "C' ! i = ucast (drop_bit (8 * (i mod 8)) (c ! (i div 8)))"
      "\<And>m. m < i \<Longrightarrow> C' ! m = C ! m"
      using True 1(3) by (simp_all add: e)
    have IH: "length (unpack_loop (i + 1) c C') = 32 \<and>
      (\<forall>m<32. unpack_loop (i + 1) c C' ! m =
        (if m < i + 1 then C' ! m else ucast (drop_bit (8 * (m mod 8)) (c ! (m div 8)))))"
      using 1(1) [OF True] True C'(1) unfolding C'_def by simp
    have u: "unpack_loop i c C = unpack_loop (i + 1) c C'"
      using True by (subst unpack_loop.simps) (simp add: C'_def)
    show ?thesis
      unfolding u using IH C' by (auto simp add: less_Suc_eq)
  qed
qed

lemma le_val_take:
  "i \<le> length ws \<Longrightarrow> le_val (take i ws) = take_bit (LENGTH('a) * i) (le_val (ws :: 'a::len word list))"
proof -
  assume i: "i \<le> length ws"
  have "le_val ws = le_val (take i ws @ drop i ws)" by simp
  also have "\<dots> = le_val (take i ws) + 2 ^ (LENGTH('a) * i) * le_val (drop i ws)"
    using i by (simp only: le_val_append) (simp add: min_absorb2)
  finally have "take_bit (LENGTH('a) * i) (le_val ws) = le_val (take i ws) mod 2 ^ (LENGTH('a) * i)"
    by (simp add: take_bit_eq_mod)
  moreover have "le_val (take i ws) < 2 ^ (LENGTH('a) * i)"
    using le_val_less [of "take i ws"] i by (simp add: min_absorb2)
  ultimately show ?thesis by simp
qed

lemma le_val_unpack:
  assumes "4 \<le> length c" "length C = 32"
  shows "le_val (unpack_loop 0 c C) = le_val (take 4 c)"
proof (rule bit_eqI)
  fix n :: nat
  let ?R = "unpack_loop 0 c C"
  have R: "length ?R = 32"
    "\<And>m. m < 32 \<Longrightarrow> ?R ! m = ucast (drop_bit (8 * (m mod 8)) (c ! (m div 8)))"
    using unpack_loop_nth [of 0 C c] assms(2) by simp_all
  have a1: "n div 8 < 32 \<longleftrightarrow> n div 64 < 4"
    by (simp add: div_less_iff_less_mult)
  have a2: "n div 8 div 8 = n div 64"
    using div_mult2_eq [of n 8 8] by simp
  have a3: "8 * (n div 8 mod 8) + n mod 8 = n mod 64"
    using mod_mult2_eq [of n 8 8] by simp
  have a4: "n mod 8 < 8" by simp
  show "bit (le_val ?R) n \<longleftrightarrow> bit (le_val (take 4 c)) n"
  proof (cases "n div 64 < 4")
    case False
    then show ?thesis using assms(1) by (simp add: bit_le_val R(1) a1 min_def)
  next
    case True
    with a1 have "n div 8 < 32" by simp
    then have "bit (le_val ?R) n \<longleftrightarrow> bit (c ! (n div 64)) (n mod 64)"
      using a4 by (simp add: bit_le_val R bit_ucast_iff bit_drop_bit_eq a2 a3)
    then show ?thesis using True assms(1) by (simp add: bit_le_val min_def)
  qed
qed

section \<open>The reduction loop\<close>

lemma word_shift_split:
  assumes "s \<le> 64"
  shows "unat (push_bit s (w::uint64)) XOR push_bit 64 (unat (drop_bit (64 - s) w)) = push_bit s (unat w)"
proof (rule bit_eqI)
  fix n
  have w: "\<And>m. bit w m \<Longrightarrow> m < 64" by (auto dest: bit_imp_le_length)
  have "64 \<le> n \<Longrightarrow> 64 - s + (n - 64) = n - s" using assms by simp
  then show "bit (unat (push_bit s w) XOR push_bit 64 (unat (drop_bit (64 - s) w))) n
      \<longleftrightarrow> bit (push_bit s (unat w)) n"
    using assms by (auto simp add: bit_simps dest: w)
qed

lemma clmul_rpoly: "clmul u rpoly = push_bit 10 u XOR push_bit 5 u XOR push_bit 2 u XOR u"
proof -
  have h: "rpoly = 2 ^ 10 XOR 2 ^ 5 XOR 2 ^ 2 XOR Suc 0"
    by (simp add: rpoly_def)
  show ?thesis
    unfolding clmul_commute [of u rpoly]
    by (subst h) (simp only: clmul_xor_left clmul_pow2_left clmul_1_left)
qed

lemma clmul_fpoly: "clmul u fpoly = push_bit 256 u XOR clmul u rpoly"
proof -
  have h: "fpoly = 2 ^ 256 XOR rpoly"
    by (simp add: fpoly_def rpoly_def)
  show ?thesis
    unfolding clmul_commute [of u]
    by (subst h) (simp only: clmul_xor_left clmul_pow2_left)
qed

lemma reduce_step_val:
  assumes "4 \<le> i" "i < length c"
  shows "length (reduce_step i c) = length c"
    and "le_val (reduce_step i c) = le_val c XOR push_bit (64 * (i - 4)) (clmul (unat (c ! i)) rpoly)"
proof -
  define w where "w = c ! i"
  define k where "k = i - 4"
  have i: "i - 4 = k" "i - 3 = Suc k" "k < length c" "Suc k < length c" "k \<noteq> i" "Suc k \<noteq> i"
    using assms by (simp_all add: k_def)
  show "length (reduce_step i c) = length c"
    by (simp add: reduce_step_def Let_def)
  have "le_val (reduce_step i c) =
      le_val c XOR push_bit (64 * k) (unat (push_bit 10 w)) XOR push_bit (64 * Suc k) (unat (drop_bit 54 w))
        XOR push_bit (64 * k) (unat (push_bit 5 w)) XOR push_bit (64 * Suc k) (unat (drop_bit 59 w))
        XOR push_bit (64 * k) (unat (push_bit 2 w)) XOR push_bit (64 * Suc k) (unat (drop_bit 62 w))
        XOR push_bit (64 * k) (unat w)"
    unfolding reduce_step_def Let_def i
    by (simp only: le_val_update_xor i length_list_update nth_list_update_neq [OF i(5)]
        nth_list_update_neq [OF i(6)] w_def [symmetric] len_of_numeral_defs)
      (simp add: xor.assoc)
  also have "\<dots> = le_val c XOR push_bit (64 * k)
      ((unat (push_bit 10 w) XOR push_bit 64 (unat (drop_bit (64 - 10) w))) XOR
       (unat (push_bit 5 w) XOR push_bit 64 (unat (drop_bit (64 - 5) w))) XOR
       (unat (push_bit 2 w) XOR push_bit 64 (unat (drop_bit (64 - 2) w))) XOR unat w)"
    by (simp only: push_bit_xor push_bit_push_bit mult_Suc_right) (simp add: ac_simps)
  also have "\<dots> = le_val c XOR push_bit (64 * k) (clmul (unat w) rpoly)"
    by (simp only: word_shift_split clmul_rpoly)
  finally show "le_val (reduce_step i c) = le_val c XOR push_bit (64 * (i - 4)) (clmul (unat (c ! i)) rpoly)"
    by (simp only: w_def k_def)
qed

lemma xor_nat_cancel_left: "(x::nat) XOR (x XOR y) = y"
  by (simp flip: xor.assoc)

lemma rpoly_less: "rpoly < 2 ^ 11"
  by (simp add: rpoly_def)

lemma reduce_step_cong:
  assumes "4 \<le> i" "i < 8" "length c = 8"
  shows "cong_f (le_val (take i (reduce_step i c))) (le_val (take (Suc i) c))"
proof -
  define u where "u = unat (c ! i)"
  define k where "k = i - 4"
  define L where "L = le_val (take i c)"
  have ik: "i = k + 4" using assms(1) by (simp add: k_def)
  have "u < 2 ^ 64"
    unfolding u_def using unsigned_less [of "c ! i", where ?'a = nat] by simp
  then have "clmul u rpoly < 2 ^ (64 + 11)"
    using rpoly_less by (rule clmul_less)
  then have "push_bit (64 * k) (clmul u rpoly) < 2 ^ (64 * k + (64 + 11))"
    by (simp add: push_bit_eq_mult power_add)
  also have "(2::nat) ^ (64 * k + (64 + 11)) \<le> 2 ^ (64 * i)"
    unfolding ik by (intro power_increasing) simp_all
  finally have small: "take_bit (64 * i) (push_bit (64 * k) (clmul u rpoly)) = push_bit (64 * k) (clmul u rpoly)"
    by (simp only: take_bit_nat_eq_self_iff)
  have "le_val (take i (reduce_step i c)) = take_bit (64 * i) (le_val (reduce_step i c))"
    using le_val_take [of i "reduce_step i c"] reduce_step_val(1) [of i c] assms by simp
  also have "\<dots> = L XOR push_bit (64 * k) (clmul u rpoly)"
    using reduce_step_val(2) [of i c] le_val_take [of i c] assms
    by (simp add: small [unfolded u_def k_def] u_def k_def L_def)
  finally have 1: "le_val (take i (reduce_step i c)) = L XOR push_bit (64 * k) (clmul u rpoly)" .
  have "le_val (take (Suc i) c) = L + 2 ^ (64 * i) * u"
    using assms by (simp add: take_Suc_conv_app_nth le_val_append L_def u_def)
  also have "\<dots> = L XOR push_bit (64 * i) u"
  proof -
    have "L < 2 ^ (64 * i)"
      unfolding L_def using le_val_less [of "take i c"] assms by simp
    then show ?thesis by (rule nat_add_push_xor)
  qed
  finally have 2: "le_val (take (Suc i) c) = L XOR push_bit (64 * i) u" .
  have "(L XOR push_bit (64 * k) (clmul u rpoly)) XOR (L XOR push_bit (64 * i) u)
      = push_bit (64 * k) (push_bit 256 u XOR clmul u rpoly)"
    unfolding ik by (simp add: push_bit_xor push_bit_push_bit xor_nat_cancel_left ac_simps)
  also have "\<dots> = clmul (push_bit (64 * k) u) fpoly"
    by (simp only: clmul_fpoly [symmetric] clmul_push_bit_left)
  finally show ?thesis
    unfolding cong_f_def 1 2 by blast
qed

lemma reduce_loop_cong:
  "3 \<le> i \<Longrightarrow> i < 8 \<Longrightarrow> length c = 8 \<Longrightarrow>
   length (reduce_loop i c) = 8 \<and>
   cong_f (le_val (take 4 (reduce_loop i c))) (le_val (take (Suc i) c))"
proof (induction i c rule: reduce_loop.induct)
  case (1 i c)
  show ?case
  proof (cases "4 \<le> i")
    case False
    then have "reduce_loop i c = c" by (subst reduce_loop.simps) simp
    moreover from False 1(2) have "i = 3" by simp
    ultimately show ?thesis using 1(4) by simp
  next
    case True
    define c' where "c' = reduce_step i c"
    have c': "length c' = 8"
      using reduce_step_val(1) [of i c] True 1(3,4) by (simp add: c'_def)
    have s: "cong_f (le_val (take i c')) (le_val (take (Suc i) c))"
      unfolding c'_def using True 1(3,4) by (rule reduce_step_cong)
    have "length (reduce_loop (i - 1) c') = 8 \<and>
        cong_f (le_val (take 4 (reduce_loop (i - 1) c'))) (le_val (take (Suc (i - 1)) c'))"
      using 1(1) [OF True] True 1(3) c' unfolding c'_def by simp
    moreover have "Suc (i - 1) = i" using True by simp
    moreover have "reduce_loop i c = reduce_loop (i - 1) c'"
      using True by (subst reduce_loop.simps) (simp add: c'_def)
    ultimately show ?thesis
      using s by (auto intro: cong_f_trans)
  qed
qed

lemma reduce_loop_mod_f:
  assumes "length c = 8"
  shows "length (reduce_loop 7 c) = 8"
    and "le_val (take 4 (reduce_loop 7 c)) = mod_f (le_val c)"
proof -
  have r: "length (reduce_loop 7 c) = 8"
    "cong_f (le_val (take 4 (reduce_loop 7 c))) (le_val (take (Suc 7) c))"
    using reduce_loop_cong [of 7 c] assms by simp_all
  show "length (reduce_loop 7 c) = 8" by fact
  have "le_val (take 4 (reduce_loop 7 c)) < 2 ^ (64 * 4)"
    using le_val_less [of "take 4 (reduce_loop 7 c)"] r(1) by simp
  then have "le_val (take 4 (reduce_loop 7 c)) < 2 ^ 256" by simp
  moreover have "take (Suc 7) c = c" using assms by simp
  ultimately show "le_val (take 4 (reduce_loop 7 c)) = mod_f (le_val c)"
    using r(2) mod_f_unique by simp
qed

section \<open>The whole function\<close>

lemma binaryFieldMul_val:
  assumes "32 \<le> length A" "32 \<le> length B"
  shows "\<exists>C. binaryFieldMul A B = Inr C \<and> length C = 32 \<and>
    le_val C = mod_f (clmul (le_val (take 32 A)) (le_val (take 32 B)))"
proof -
  obtain a b where p: "pack_loop 0 A B (replicate 4 0) (replicate 5 0) = Inr (a, b)"
    and l: "length a = 4" "length b = 5"
    and v: "le_val a = le_val (take 32 A)" "le_val b = le_val (take 32 B)"
    using pack_loop_val [of 0 A B "replicate 4 0" "replicate 5 0"] assms by auto
  define c where "c = comb_loop 0 a b (replicate 8 0)"
  define c' where "c' = reduce_loop 7 c"
  define C where "C = unpack_loop 0 c' (replicate 32 0)"
  have "le_val (take 32 B) < 2 ^ (8 * 32)"
    using le_val_less [of "take 32 B"] assms(2) by simp
  then have "le_val b < 2 ^ (256 + 0)" by (simp add: v)
  then have c: "length c = 8" "le_val c = clmul (le_val (take 32 A)) (le_val (take 32 B))"
    using comb_loop_val [of 0 a b "replicate 8 0"] l by (simp_all add: c_def v)
  have c': "length c' = 8" "le_val (take 4 c') = mod_f (le_val c)"
    unfolding c'_def using reduce_loop_mod_f [OF c(1)] by simp_all
  have C: "length C = 32" "le_val C = le_val (take 4 c')"
    unfolding C_def using unpack_loop_nth [of 0 "replicate 32 0" c'] le_val_unpack [of c' "replicate 32 0"] c'(1)
    by simp_all
  have "binaryFieldMul A B = Inr C"
    by (simp add: binaryFieldMul_def p c_def c'_def C_def)
  with C c' c show ?thesis by simp
qed

lemma le_val_inj:
  "length xs = length ys \<Longrightarrow> le_val xs = le_val ys \<Longrightarrow> xs = (ys :: 'a::len word list)"
proof (induction xs ys rule: list_induct2)
  case Nil
  then show ?case by simp
next
  case (Cons x xs y ys)
  have x: "unat x < 2 ^ LENGTH('a)" and y: "unat y < 2 ^ LENGTH('a)"
    by simp_all
  from Cons.prems have e: "unat x + 2 ^ LENGTH('a) * le_val xs = unat y + 2 ^ LENGTH('a) * le_val ys"
    by simp
  then have "(unat x + 2 ^ LENGTH('a) * le_val xs) mod 2 ^ LENGTH('a)
      = (unat y + 2 ^ LENGTH('a) * le_val ys) mod 2 ^ LENGTH('a)"
    by simp
  with x y have 1: "unat x = unat y" by simp
  with e have "le_val xs = le_val ys" by simp
  with Cons.IH 1 show ?case by (simp add: word_unat_eq_iff)
qed

lemma le_val_map2_xor:
  "length xs = length ys \<Longrightarrow>
   le_val (map2 (XOR) xs ys) = le_val xs XOR le_val (ys :: 'a::len word list)"
proof (induction xs ys rule: list_induct2)
  case Nil
  then show ?case by simp
next
  case (Cons x xs y ys)
  have "le_val (map2 (XOR) (x # xs) (y # ys)) = unat (x XOR y) XOR push_bit LENGTH('a) (le_val (map2 (XOR) xs ys))"
    by (simp add: le_val_Cons_xor del: le_val.simps)
  also have "\<dots> = (unat x XOR push_bit LENGTH('a) (le_val xs)) XOR (unat y XOR push_bit LENGTH('a) (le_val ys))"
    by (simp add: Cons.IH unsigned_xor_eq push_bit_xor ac_simps)
  finally show ?case by (simp only: le_val_Cons_xor)
qed

lemma le_val_bytes_less: "length (A :: byte list) = 32 \<Longrightarrow> le_val A < 2 ^ 256"
  using le_val_less [of A] by simp

lemma binaryFieldMul_32:
  assumes "length A = 32" "length B = 32"
  obtains C where "binaryFieldMul A B = Inr C" "length C = 32"
    "le_val C = mod_f (clmul (le_val A) (le_val B))"
  using binaryFieldMul_val [of A B] assms by auto

lemma mod_f_15: "mod_f (clmul 3 5) = 15"
proof -
  have "clmul 3 5 = 15"
    by (simp add: clmul.simps [of 3] clmul.simps [of "Suc 0"])
  then show ?thesis by (simp add: mod_f_id)
qed

lemma pack_loop_short:
  "i \<le> n \<Longrightarrow> n < 32 \<Longrightarrow> n = min (length A) (length B) \<Longrightarrow>
   pack_loop i A B a b = Inl (IndexOutOfRange n n)"
proof (induction i A B a b rule: pack_loop.induct)
  case (1 i A B a b)
  show ?case
  proof (cases "i = n")
    case True
    with 1(3,4) show ?thesis
      by (subst pack_loop.simps) (auto simp add: Let_def min_def split: if_splits)
  next
    case False
    with 1(2) have lt: "i < n" by simp
    with 1(3) have "i < 32" by simp
    moreover from lt 1(4) have "i < length A" "i < length B" by simp_all
    ultimately have i: "i < 32" "i < length A" "i < length B" by simp_all
    have "pack_loop i A B a b =
      pack_loop (i + 1) A B
        (a[drop_bit 3 i := a ! drop_bit 3 i OR push_bit (push_bit 3 (i AND 7)) (ucast (A ! i))])
        (b[drop_bit 3 i := b ! drop_bit 3 i OR push_bit (push_bit 3 (i AND 7)) (ucast (B ! i))])"
      using i by (subst pack_loop.simps) (simp add: Let_def)
    also have "\<dots> = Inl (IndexOutOfRange n n)"
      using 1(1) [OF i(1) _ refl _ refl] i lt 1(3,4) by simp
    finally show ?thesis .
  qed
qed

lemma binaryFieldMul_short:
  assumes "length A < 32 \<or> length B < 32"
  shows "binaryFieldMul A B =
    Inl (IndexOutOfRange (min (length A) (length B)) (min (length A) (length B)))"
proof -
  from assms have "min (length A) (length B) < 32" by auto
  then show ?thesis
    using pack_loop_short [of 0 "min (length A) (length B)" A B] 
    by (simp add: binaryFieldMul_def)
qed

lemma binaryFieldMul_eqI:
  assumes "32 \<le> length A" "32 \<le> length B" "length C = 32"
    and "le_val C = mod_f (clmul (le_val (take 32 A)) (le_val (take 32 B)))"
  shows "binaryFieldMul A B = Inr C"
proof -
  obtain D where D: "binaryFieldMul A B = Inr D" "length D = 32"
    "le_val D = mod_f (clmul (le_val (take 32 A)) (le_val (take 32 B)))"
    using binaryFieldMul_val [OF assms(1,2)] by blast
  with assms(3,4) have "D = C" by (intro le_val_inj) simp_all
  with D(1) show ?thesis by simp
qed

lemma binaryFieldMul_truncates:
  assumes "32 \<le> length A" "32 \<le> length B"
  shows "binaryFieldMul A B = binaryFieldMul (take 32 A) (take 32 B)"
proof -
  obtain D where D: "binaryFieldMul (take 32 A) (take 32 B) = Inr D" "length D = 32"
    "le_val D = mod_f (clmul (le_val (take 32 (take 32 A))) (le_val (take 32 (take 32 B))))"
    using binaryFieldMul_val [of "take 32 A" "take 32 B"] assms by auto
  then have "binaryFieldMul A B = Inr D"
    using assms by (intro binaryFieldMul_eqI) simp_all
  with D(1) show ?thesis by simp
qed

lemma known_vector:
  "binaryFieldMul (3 # replicate 31 0) (5 # replicate 31 0) = Inr (15 # replicate 31 0)"
  by (rule binaryFieldMul_eqI) (simp_all add: mod_f_15)

lemma mod_f_10: "mod_f (clmul 3 6) = 10"
proof -
  have "clmul 3 6 = 10"
    by (simp add: clmul.simps [of 3] clmul.simps [of "Suc 0"])
  then show ?thesis by (simp add: mod_f_id)
qed

lemma known_vector_3_6:
  "binaryFieldMul (3 # replicate 31 0) (6 # replicate 31 0) = Inr (10 # replicate 31 0)"
  by (rule binaryFieldMul_eqI) (simp_all add: mod_f_10)

lemma pack_loop_example:
  "pack_loop 0 (3 # replicate 31 0) (5 # replicate 31 0) (replicate 4 0) (replicate 5 0)
     = Inr ([3, 0, 0, 0], [5, 0, 0, 0, 0])"
proof -
  obtain a b where p: "pack_loop 0 (3 # replicate 31 0) (5 # replicate 31 0) (replicate 4 0) (replicate 5 0) = Inr (a, b)"
    and l: "length a = 4" "length b = 5"
    and v: "le_val a = le_val (take 32 (3 # replicate 31 0 :: byte list))"
      "le_val b = le_val (take 32 (5 # replicate 31 0 :: byte list))"
    using pack_loop_val [of 0 "3 # replicate 31 0" "5 # replicate 31 0" "replicate 4 0" "replicate 5 0"]
    by auto
  have "a = [3, 0, 0, 0]"
    using l(1) v(1) by (intro le_val_inj) simp_all
  moreover have "b = [5, 0, 0, 0, 0]"
    using l(2) v(2) by (intro le_val_inj) simp_all
  ultimately show ?thesis using p by simp
qed

lemma reduce_step_explicit:
  assumes "4 \<le> i" "i < length c"
  shows "reduce_step i c =
    c[i - 4 := c ! (i - 4) XOR push_bit 10 (c ! i) XOR push_bit 5 (c ! i) XOR push_bit 2 (c ! i) XOR c ! i,
      i - 3 := c ! (i - 3) XOR drop_bit 54 (c ! i) XOR drop_bit 59 (c ! i) XOR drop_bit 62 (c ! i)]"
proof -
  define k where "k = i - 4"
  have i: "i - 4 = k" "i - 3 = Suc k" "k < length c" "Suc k < length c" "k \<noteq> i" "Suc k \<noteq> i"
    using assms by (simp_all add: k_def)
  show ?thesis
    unfolding reduce_step_def Let_def i
    by (rule nth_equalityI) (simp_all add: nth_list_update i xor.assoc)
qed

lemma reduce_loop_unfold:
  "reduce_loop 7 c = reduce_step 4 (reduce_step 5 (reduce_step 6 (reduce_step 7 c)))"
proof -
  have "reduce_loop 7 c = reduce_loop 6 (reduce_step 7 c)"
    by (subst reduce_loop.simps) simp
  also have "\<dots> = reduce_loop 5 (reduce_step 6 (reduce_step 7 c))"
    by (subst reduce_loop.simps) simp
  also have "\<dots> = reduce_loop 4 (reduce_step 5 (reduce_step 6 (reduce_step 7 c)))"
    by (subst reduce_loop.simps) simp
  also have "\<dots> = reduce_loop 3 (reduce_step 4 (reduce_step 5 (reduce_step 6 (reduce_step 7 c))))"
    by (subst reduce_loop.simps) simp
  also have "\<dots> = reduce_step 4 (reduce_step 5 (reduce_step 6 (reduce_step 7 c)))"
    by (subst reduce_loop.simps) simp
  finally show ?thesis .
qed

lemma reduce_loop_example:
  "reduce_loop 7 [0, 0, 0, 0, 0, 0, 0, 0x8000000000000000]
     = [0x8001a, 0, 0, 0x8000000000000000, 0x212, 0, 0, 0x8000000000000000]"
  by (simp add: reduce_loop_unfold reduce_step_def)

section \<open>Squaring 256 times\<close>

lemma clmul_square_xor: "clmul (x XOR y) (x XOR y) = clmul x x XOR clmul y y"
proof -
  have "clmul (x XOR y) (x XOR y) = clmul x x XOR (clmul x y XOR (clmul x y XOR clmul y y))"
    by (simp add: clmul_xor_left clmul_xor_right clmul_commute [of y x] xor.assoc)
  then show ?thesis by (simp only: xor_nat_cancel_left)
qed

lemma gf_sq_xor: "gf_sq (x XOR y) = gf_sq x XOR gf_sq y"
  by (simp add: gf_sq_def clmul_square_xor mod_f_xor)

lemma gf_sq_mul: "gf_sq (mod_f (clmul x y)) = mod_f (clmul (gf_sq x) (gf_sq y))"
proof -
  have "gf_sq (mod_f (clmul x y)) = mod_f (clmul (clmul x y) (clmul x y))"
    by (simp add: gf_sq_def mod_f_clmul_mod_f_left mod_f_clmul_mod_f_right)
  also have "clmul (clmul x y) (clmul x y) = clmul (clmul x x) (clmul y y)"
    by (metis clmul_assoc clmul_commute)
  also have "mod_f \<dots> = mod_f (clmul (gf_sq x) (gf_sq y))"
    by (simp add: gf_sq_def mod_f_clmul_mod_f_left mod_f_clmul_mod_f_right)
  finally show ?thesis .
qed

lemma gf_sq_0 [simp]: "gf_sq 0 = 0"
  by (simp add: gf_sq_def mod_f_id)

lemma gf_sq_1 [simp]: "gf_sq (Suc 0) = Suc 0"
  by (simp add: gf_sq_def mod_f_id)

lemma gf_sq_pow_xor: "(gf_sq ^^ n) (x XOR y) = (gf_sq ^^ n) x XOR (gf_sq ^^ n) y"
  by (induction n) (simp_all add: gf_sq_xor)

lemma gf_sq_pow_mul:
  "(gf_sq ^^ n) (mod_f (clmul x y)) = mod_f (clmul ((gf_sq ^^ n) x) ((gf_sq ^^ n) y))"
  by (induction n) (simp_all add: gf_sq_mul mod_f_clmul_mod_f_left mod_f_clmul_mod_f_right)

lemma gf_sq_pow_0 [simp]: "(gf_sq ^^ n) 0 = 0"
  by (induction n) simp_all

lemma gf_sq_pow_1 [simp]: "(gf_sq ^^ n) (Suc 0) = Suc 0"
  by (induction n) simp_all

lemma clmul_2: "clmul 2 y = 2 * y"
  using clmul_double_left [of 1 y] by simp

lemma frobenius_fixes_all:
  assumes X: "(gf_sq ^^ n) 2 = 2"
  shows "x < 2 ^ 256 \<Longrightarrow> (gf_sq ^^ n) x = x"
proof (induction x rule: less_induct)
  case (less x)
  show ?case
  proof (cases "x = 0")
    case True
    then show ?thesis by simp
  next
    case False
    define b :: nat where "b = (if odd x then Suc 0 else 0)"
    define h where "h = x div 2"
    have x: "x = b XOR 2 * h"
      unfolding b_def h_def by (simp only: nat_split_bit)
    have h: "h < x" "h < 2 ^ 256" "2 * h < 2 ^ 256"
      using False less.prems by (simp_all add: h_def)
    have IH: "(gf_sq ^^ n) h = h"
      using h by (intro less.IH)
    have m: "2 * h = mod_f (clmul 2 h)"
      using h(3) by (simp add: clmul_2 mod_f_id)
    have "(gf_sq ^^ n) x = (gf_sq ^^ n) b XOR (gf_sq ^^ n) (mod_f (clmul 2 h))"
      by (subst x) (simp only: gf_sq_pow_xor m [symmetric])
    also have "(gf_sq ^^ n) b = b"
      by (simp add: b_def)
    also have "(gf_sq ^^ n) (mod_f (clmul 2 h)) = mod_f (clmul 2 h)"
      by (simp only: gf_sq_pow_mul X IH)
    finally show ?thesis
      by (simp only: m [symmetric] x [symmetric])
  qed
qed

lemma square_iter_val:
  "length x = 32 \<Longrightarrow>
   \<exists>y. square_iter n x = Inr y \<and> length y = 32 \<and> le_val y = (gf_sq ^^ n) (le_val x)"
proof (induction n arbitrary: x)
  case 0
  then show ?case by simp
next
  case (Suc n)
  obtain t where t: "binaryFieldMul x x = Inr t" "length t = 32"
    "le_val t = mod_f (clmul (le_val x) (le_val x))"
    by (rule binaryFieldMul_32 [OF Suc.prems Suc.prems])
  from Suc.IH [OF t(2)] obtain y where y: "square_iter n t = Inr y" "length y = 32"
    "le_val y = (gf_sq ^^ n) (le_val t)" by blast
  have "le_val t = gf_sq (le_val x)"
    by (simp only: t(3) gf_sq_def)
  then have "le_val y = (gf_sq ^^ Suc n) (le_val x)"
    by (simp add: y(3) funpow_Suc_right del: funpow.simps)
  with t(1) y(1,2) show ?case by simp
qed

lemma val_bits_less: "val_bits bs < 2 ^ length bs"
  by (induction bs) auto

lemma val_bits_Cons_xor: "val_bits (b # bs) = (if b then Suc 0 else 0) XOR 2 * val_bits bs"
proof (cases b)
  case True
  have "Suc 0 < 2 ^ 1" by simp
  from nat_add_push_xor [OF this, of "val_bits bs"] True show ?thesis
    by (simp add: push_bit_eq_mult mult.commute)
next
  case False
  then show ?thesis by simp
qed

lemma val_bits_xor: "val_bits (xor_bits xs ys) = val_bits xs XOR val_bits ys"
proof (induction xs ys rule: xor_bits.induct)
  case (3 x xs y ys)
  have b: "(if bxor x y then Suc 0 else 0) = (if x then Suc 0 else 0) XOR (if y then Suc 0 else 0)"
    by (cases x; cases y) simp_all
  have "val_bits (xor_bits (x # xs) (y # ys)) =
      ((if x then Suc 0 else 0) XOR (if y then Suc 0 else 0)) XOR (2 * val_bits xs XOR 2 * val_bits ys)"
    by (simp only: xor_bits.simps val_bits_Cons_xor "3.IH" b double_xor_nat)
  also have "\<dots> = val_bits (x # xs) XOR val_bits (y # ys)"
    by (simp only: val_bits_Cons_xor ac_simps)
  finally show ?case .
qed simp_all

lemma length_xor_bits: "length (xor_bits xs ys) = max (length xs) (length ys)"
  by (induction xs ys rule: xor_bits.induct) simp_all

lemma length_spread_bits: "length (spread_bits bs) = 2 * length bs"
  by (induction bs) simp_all

lemma val_bits_spread: "val_bits (spread_bits bs) = clmul (val_bits bs) (val_bits bs)"
proof (induction bs)
  case Nil
  then show ?case by simp
next
  case (Cons b bs)
  define v where "v = val_bits bs"
  have "val_bits (spread_bits (b # bs)) = (if b then Suc 0 else 0) XOR 2 * (2 * clmul v v)"
    by (simp only: spread_bits.simps val_bits_Cons_xor Cons.IH v_def) simp
  also have "\<dots> = clmul (if b then Suc 0 else 0) (if b then Suc 0 else 0) XOR clmul (2 * v) (2 * v)"
    by (simp add: clmul_double_left clmul_double_right)
  also have "\<dots> = clmul (val_bits (b # bs)) (val_bits (b # bs))"
    by (simp only: val_bits_Cons_xor clmul_square_xor v_def)
  finally show ?case .
qed

lemma val_bits_mulr: "val_bits (mulr_bits h) = clmul (val_bits h) rpoly"
proof -
  have "val_bits (mulr_bits h) = val_bits h XOR 4 * val_bits h XOR 32 * val_bits h XOR 1024 * val_bits h"
    by (simp only: mulr_bits_def val_bits_xor) simp
  then show ?thesis
    by (simp add: clmul_rpoly push_bit_eq_mult ac_simps)
qed

lemma length_mulr_bits: "length (mulr_bits h) = length h + 10"
  by (simp add: mulr_bits_def length_xor_bits)

lemma val_bits_take: "val_bits (take n z) = take_bit n (val_bits z)"
proof (induction z arbitrary: n)
  case Nil
  then show ?case by simp
next
  case (Cons b z)
  show ?case
  proof (cases n)
    case 0
    then show ?thesis by simp
  next
    case (Suc m)
    then show ?thesis
      by (simp add: Cons.IH take_bit_Suc)
  qed
qed

lemma val_bits_drop: "val_bits (drop n z) = drop_bit n (val_bits z)"
proof (induction z arbitrary: n)
  case Nil
  then show ?case by simp
next
  case (Cons b z)
  show ?case
  proof (cases n)
    case 0
    then show ?thesis by simp
  next
    case (Suc m)
    then show ?thesis
      by (simp add: Cons.IH drop_bit_Suc)
  qed
qed

lemma nat_take_drop_xor: "take_bit n v XOR push_bit n (drop_bit n v) = (v::nat)"
proof -
  have "take_bit n v < 2 ^ n" by simp
  from nat_add_push_xor [OF this, of "drop_bit n v", symmetric] show ?thesis
    by (simp add: take_bit_eq_mod drop_bit_eq_div)
qed

lemma fold_bits_cong: "cong_f (val_bits (fold_bits 256 z)) (val_bits z)"
proof -
  define v where "v = val_bits z"
  define h where "h = drop_bit 256 v"
  have e: "v = take_bit 256 v XOR push_bit 256 h"
    by (simp only: h_def nat_take_drop_xor)
  have "val_bits (fold_bits 256 z) XOR v = (take_bit 256 v XOR clmul h rpoly) XOR v"
    by (simp only: fold_bits_def val_bits_xor val_bits_take val_bits_drop val_bits_mulr
        v_def [symmetric] h_def [symmetric])
  also have "\<dots> = (take_bit 256 v XOR clmul h rpoly) XOR (take_bit 256 v XOR push_bit 256 h)"
    by (rule arg_cong [OF e])
  also have "\<dots> = push_bit 256 h XOR clmul h rpoly"
    by (simp add: xor_nat_cancel_left ac_simps)
  also have "\<dots> = clmul h fpoly"
    by (simp only: clmul_fpoly)
  finally show ?thesis
    unfolding cong_f_def v_def by blast
qed

lemma length_fold_bits:
  "length (fold_bits 256 z) = max (min (length z) 256) (length z - 256 + 10)"
  by (simp add: fold_bits_def length_xor_bits length_mulr_bits)

lemma sq_bits_val:
  assumes "length x \<le> 256"
  shows "length (sq_bits 256 x) \<le> 256" and "val_bits (sq_bits 256 x) = gf_sq (val_bits x)"
proof -
  show l: "length (sq_bits 256 x) \<le> 256"
    using assms by (simp add: sq_bits_def length_fold_bits length_spread_bits)
  have "val_bits (sq_bits 256 x) < 2 ^ length (sq_bits 256 x)"
    by (rule val_bits_less)
  also have "\<dots> \<le> 2 ^ 256"
    using l by (intro power_increasing) simp_all
  finally have "val_bits (sq_bits 256 x) < 2 ^ 256" .
  moreover have "cong_f (val_bits (sq_bits 256 x)) (clmul (val_bits x) (val_bits x))"
    unfolding sq_bits_def val_bits_spread [symmetric]
    by (rule cong_f_trans [OF fold_bits_cong fold_bits_cong])
  ultimately show "val_bits (sq_bits 256 x) = gf_sq (val_bits x)"
    unfolding gf_sq_def by (rule mod_f_unique [symmetric])
qed

lemma sq_bits_iter_val:
  "length x \<le> 256 \<Longrightarrow> val_bits (sq_bits_iter k 256 x) = (gf_sq ^^ k) (val_bits x)"
proof (induction k arbitrary: x)
  case 0
  then show ?case by simp
next
  case (Suc k)
  from sq_bits_val [OF Suc.prems] Suc.IH [of "sq_bits 256 x"] show ?case
    by (simp add: funpow_Suc_right del: funpow.simps)
qed

lemma all_false_val: "all_false bs \<Longrightarrow> val_bits bs = 0"
  by (induction bs rule: all_false.induct) simp_all

lemma is_X_val: "is_X bs \<Longrightarrow> val_bits bs = 2"
  by (induction bs rule: is_X.induct) (simp_all add: all_false_val)

lemma twice_simps: "twice 0 = 0" "twice (Suc n) = Suc (Suc (twice n))"
  by (simp_all add: twice_def)

lemma unary_256: "256 = twice (twice (twice (twice (twice (twice (twice (twice (Suc 0))))))))"
  by (simp add: twice_def)

lemma sq_bits_iter_256: "is_X (sq_bits_iter 256 256 [False, True])"
  by (simp only: unary_256 twice_simps sq_bits_iter.simps sq_bits_def fold_bits_def mulr_bits_def
      spread_bits.simps xor_bits.simps bxor.simps take_0 drop_0 take.simps(1) drop.simps(1)
      take_Suc_Cons drop_Suc_Cons is_X.simps all_false.simps)

lemma frobenius_X: "(gf_sq ^^ 256) 2 = 2"
proof -
  have "val_bits (sq_bits_iter 256 256 [False, True]) = 2"
    using sq_bits_iter_256 by (rule is_X_val)
  moreover have "val_bits (sq_bits_iter 256 256 [False, True]) = (gf_sq ^^ 256) (val_bits [False, True])"
    by (rule sq_bits_iter_val) simp
  moreover have "val_bits [False, True] = 2"
    by simp
  ultimately show ?thesis
    by (simp only:)
qed

section \<open>The function on a store\<close>

lemma rd_contents:
  "valid h s \<Longrightarrow> rd h s i =
     (if i < length (contents h s) then Inr (contents h s ! i)
      else Inl (IndexOutOfRange i (length (contents h s))))"
  by (auto simp add: rd_def contents_def valid_def min_def)

lemma pack_loop_st_eq:
  "valid h A \<Longrightarrow> valid h B \<Longrightarrow>
   pack_loop_st i h A B a b = pack_loop i (contents h A) (contents h B) a b"
proof (induction i h A B a b rule: pack_loop_st.induct)
  case (1 i h A B a b)
  show ?case
  proof (cases "i < 32 \<and> i < length (contents h A) \<and> i < length (contents h B)")
    case False
    then show ?thesis
      using 1(2,3)
      by (subst pack_loop_st.simps, subst pack_loop.simps) (auto simp add: rd_contents Let_def)
  next
    case True
    then have r: "rd h A i = Inr (contents h A ! i)" "rd h B i = Inr (contents h B ! i)"
      using 1(2,3) by (simp_all add: rd_contents)
    show ?thesis
      using True 1(1) [OF _ r(1) refl r(2) refl] 1(2,3)
      by (subst pack_loop_st.simps, subst pack_loop.simps) (simp add: r Let_def)
  qed
qed

lemma unpack_loop_st_fresh:
  "length buf = 32 \<Longrightarrow>
   unpack_loop_st i c \<lparr>base = length h, off = 0, len = 32\<rparr> (h @ [buf])
     = h @ [unpack_loop i c buf]"
proof (induction i c buf rule: unpack_loop.induct)
  case (1 i c buf)
  show ?case
  proof (cases "i < 32")
    case False
    then show ?thesis
      by (subst unpack_loop_st.simps, subst unpack_loop.simps) simp
  next
    case True
    have w: "wr (h @ [buf]) \<lparr>base = length h, off = 0, len = 32\<rparr> i v = h @ [buf[i := v]]" for v
      by (simp add: wr_def)
    show ?thesis
      using True 1(1) [OF True] 1(2)
      by (subst unpack_loop_st.simps, subst unpack_loop.simps) (simp add: w)
  qed
qed

lemma contents_append:
  "valid h s \<Longrightarrow> contents (h @ hs) s = contents h s"
  by (simp add: contents_def valid_def nth_append)

lemma binaryFieldMul_st_eq:
  assumes "valid h A" "valid h B"
  shows "binaryFieldMul_st h A B =
    (case binaryFieldMul (contents h A) (contents h B) of
       Inl e \<Rightarrow> Inl e
     | Inr R \<Rightarrow> Inr (\<lparr>base = length h, off = 0, len = 32\<rparr>, h @ [R]))"
  by (simp add: binaryFieldMul_st_def binaryFieldMul_def pack_loop_st_eq [OF assms] make_bytes_def
      unpack_loop_st_fresh Let_def split: sum.splits prod.splits)

section \<open>The claims\<close>

text \<open>
  Claim C1. For every pair of 32-byte inputs \<open>A\<close> and \<open>B\<close>, \<open>binaryFieldMul A B\<close>
  returns 32 bytes, and these are the little-endian representation of the product of the
  polynomials over GF(2) that \<open>A\<close> and \<open>B\<close> encode, reduced modulo
  \<open>f(X) = X\<^sup>2\<^sup>5\<^sup>6 + X\<^sup>1\<^sup>0 + X\<^sup>5 + X\<^sup>2 + 1\<close>: the result is \<open>mod_f\<close> of the product,
  that is, it has degree below 256 and differs from the product by a multiple of \<open>f\<close>.
\<close>

theorem binaryFieldMul_correct:
  assumes "length A = 32" "length B = 32"
  shows "\<exists>C. binaryFieldMul A B = Inr C \<and> length C = 32 \<and>
    le_val C = mod_f (clmul (le_val A) (le_val B)) \<and>
    le_val C < 2 ^ 256 \<and> cong_f (le_val C) (clmul (le_val A) (le_val B))"
proof -
  obtain C where C: "binaryFieldMul A B = Inr C" "length C = 32"
    "le_val C = mod_f (clmul (le_val A) (le_val B))"
    by (rule binaryFieldMul_32 [OF assms(1) assms(2)])
  from C(3) have "le_val C < 2 ^ 256" "cong_f (le_val C) (clmul (le_val A) (le_val B))"
    by (simp_all only: mod_f_less mod_f_cong)
  with C show ?thesis by blast
qed

text \<open>
  The known vector of the source's \<open>main\<close>: 3 times 5 is 15 (\<open>0f00\<dots>00\<close>), obtained
  from the theorem, with the value of the specification evaluated.
\<close>

theorem binaryFieldMul_correct_witness:
  "binaryFieldMul (3 # replicate 31 0) (5 # replicate 31 0) = Inr (15 # replicate 31 0)"
proof -
  obtain C where C: "binaryFieldMul (3 # replicate 31 0) (5 # replicate 31 0) = Inr C"
    "length C = 32" "le_val C = mod_f (clmul (le_val (3 # replicate 31 0 :: byte list)) (le_val (5 # replicate 31 0 :: byte list)))"
    using binaryFieldMul_correct [of "3 # replicate 31 0" "5 # replicate 31 0"] by auto
  from C(3) have "le_val C = le_val (15 # replicate 31 0 :: byte list)"
    by (simp add: mod_f_15)
  with C(2) have "C = 15 # replicate 31 0"
    by (intro le_val_inj) simp_all
  with C(1) show ?thesis by simp
qed

text \<open>
  Claim C2, as the specification states it: an input that is not exactly 32 bytes long
  is reported as an \<open>InvalidInputLength\<close> error, never silently padded or truncated. The
  function has no length check. With a 33-byte \<open>A\<close> it returns a result, that of the
  first 32 bytes: the last byte, \<open>0xff\<close>, is silently dropped.
\<close>

theorem binaryFieldMul_no_length_check_counterexample:
  "length (3 # replicate 31 0 @ [255 :: byte]) \<noteq> 32 \<and>
   binaryFieldMul (3 # replicate 31 0 @ [255]) (5 # replicate 31 0) = Inr (15 # replicate 31 0)"
proof -
  have "binaryFieldMul (3 # replicate 31 0 @ [255]) (5 # replicate 31 0) = Inr (15 # replicate 31 0)"
    by (rule binaryFieldMul_eqI) (simp_all add: mod_f_15)
  then show ?thesis by simp
qed

text \<open>
  Claim C2, amended. If either input has fewer than 32 bytes, the call panics with the
  Go runtime's index-out-of-range error at the first index that is missing, and returns
  nothing. If both inputs have at least 32 bytes, the call returns 32 bytes; it reads
  the first 32 bytes of each input only, so the result is that of the inputs cut to 32
  bytes.
\<close>

theorem binaryFieldMul_lengths:
  "(length A < 32 \<or> length B < 32 \<longrightarrow>
      binaryFieldMul A B =
        Inl (IndexOutOfRange (min (length A) (length B)) (min (length A) (length B)))) \<and>
   (32 \<le> length A \<and> 32 \<le> length B \<longrightarrow>
      (\<exists>C. binaryFieldMul A B = Inr C \<and> length C = 32) \<and>
      binaryFieldMul A B = binaryFieldMul (take 32 A) (take 32 B))"
  using binaryFieldMul_short [of A B] binaryFieldMul_val [of A B] binaryFieldMul_truncates [of A B]
  by blast

theorem binaryFieldMul_lengths_witness:
  "binaryFieldMul [1, 2, 3] (5 # replicate 31 0) = Inl (IndexOutOfRange 3 3) \<and>
   binaryFieldMul (3 # replicate 31 0 @ [255]) (5 # replicate 31 0)
     = binaryFieldMul (take 32 (3 # replicate 31 0 @ [255])) (take 32 (5 # replicate 31 0))"
  using binaryFieldMul_lengths [of "[1, 2, 3]" "5 # replicate 31 0"]
    binaryFieldMul_lengths [of "3 # replicate 31 0 @ [255]" "5 # replicate 31 0"]
  by simp

text \<open>
  Claim C3. In the reduction, for each index \<open>i\<close> from 7 down to 4, the word \<open>c[i]\<close> is
  folded into \<open>c[i-4]\<close> and \<open>c[i-3]\<close>: \<open>c[i-4]\<close> receives \<open>c[i]\<close> shifted left by 10, 5, 2
  and 0, and \<open>c[i-3]\<close> receives \<open>c[i]\<close> shifted right by 54, 59 and 62, all by XOR. After
  this one loop the words \<open>c[0..3]\<close> hold the reduced result: the remainder modulo \<open>f\<close>
  of the polynomial that the eight words held, of degree below 256, so that no further
  pass is needed. This holds for every content of the eight words.
\<close>

theorem reduction_single_pass:
  assumes "length c = 8"
  shows "reduce_loop 7 c = reduce_step 4 (reduce_step 5 (reduce_step 6 (reduce_step 7 c))) \<and>
    (\<forall>i. 4 \<le> i \<and> i \<le> 7 \<longrightarrow> reduce_step i c =
       c[i - 4 := c ! (i - 4) XOR push_bit 10 (c ! i) XOR push_bit 5 (c ! i) XOR push_bit 2 (c ! i) XOR c ! i,
         i - 3 := c ! (i - 3) XOR drop_bit 54 (c ! i) XOR drop_bit 59 (c ! i) XOR drop_bit 62 (c ! i)]) \<and>
    le_val (take 4 (reduce_loop 7 c)) = mod_f (le_val c) \<and>
    le_val (take 4 (reduce_loop 7 c)) < 2 ^ 256"
proof -
  have "le_val (take 4 (reduce_loop 7 c)) = mod_f (le_val c)"
    using assms by (rule reduce_loop_mod_f(2))
  moreover from this have "le_val (take 4 (reduce_loop 7 c)) < 2 ^ 256"
    by (simp only: mod_f_less)
  ultimately show ?thesis
    using assms reduce_step_explicit [of _ c] reduce_loop_unfold [of c] by simp
qed

text \<open>
  The words of \<open>X\<^sup>5\<^sup>1\<^sup>1\<close>: the fold of \<open>c[7]\<close> carries into \<open>c[4]\<close>, which is folded in turn.
\<close>

theorem reduction_single_pass_witness:
  "reduce_loop 7 [0, 0, 0, 0, 0, 0, 0, 0x8000000000000000]
     = [0x8001a, 0, 0, 0x8000000000000000, 0x212, 0, 0, 0x8000000000000000] \<and>
   mod_f (le_val [0, 0, 0, 0, 0, 0, 0, 0x8000000000000000 :: uint64])
     = le_val [0x8001a, 0, 0, 0x8000000000000000 :: uint64]"
  using reduction_single_pass [of "[0, 0, 0, 0, 0, 0, 0, 0x8000000000000000]"]
  by (simp add: reduce_loop_example del: le_val.simps)

text \<open>
  Claim C4. The mask of line 35, \<open>-(a[j] >> k & 0x01)\<close> in unsigned 64-bit wrap-around
  arithmetic, is the all-ones word \<open>0xFFFFFFFFFFFFFFFF\<close> when bit \<open>k\<close> of word \<open>j\<close> is 1
  and the zero word when that bit is 0, for every content of \<open>a\<close> and all \<open>j\<close>, \<open>k\<close>.
\<close>

theorem comb_mask_all_ones_or_zero:
  "comb_mask a j k = (if bit (a ! j) k then 0xFFFFFFFFFFFFFFFF else 0)"
  by (simp add: comb_mask_eq)

text \<open>
  Claim C5. The multiplication is commutative on 32-byte inputs:
  \<open>binaryFieldMul A B = binaryFieldMul B A\<close>, although the comb loop scans the bits of
  \<open>A\<close> and shifts \<open>B\<close>.
\<close>

theorem binaryFieldMul_commute:
  assumes "length A = 32" "length B = 32"
  shows "binaryFieldMul A B = binaryFieldMul B A"
proof -
  obtain C where C: "binaryFieldMul A B = Inr C" "length C = 32"
    "le_val C = mod_f (clmul (le_val A) (le_val B))"
    by (rule binaryFieldMul_32 [OF assms(1) assms(2)])
  obtain D where D: "binaryFieldMul B A = Inr D" "length D = 32"
    "le_val D = mod_f (clmul (le_val B) (le_val A))"
    by (rule binaryFieldMul_32 [OF assms(2) assms(1)])
  have "C = D"
    using C(2,3) D(2,3) by (intro le_val_inj) (simp_all add: clmul_commute)
  with C(1) D(1) show ?thesis by simp
qed

theorem binaryFieldMul_commute_witness:
  "binaryFieldMul (5 # replicate 31 0) (3 # replicate 31 0) = Inr (15 # replicate 31 0)"
  using binaryFieldMul_commute [of "3 # replicate 31 0" "5 # replicate 31 0"]
  by (simp add: known_vector)

text \<open>
  Claim C6. The multiplication distributes over the byte-wise XOR of 32-byte buffers:
  \<open>binaryFieldMul A (B XOR C)\<close> is the byte-wise XOR of \<open>binaryFieldMul A B\<close> and
  \<open>binaryFieldMul A C\<close>.
\<close>

theorem binaryFieldMul_distrib:
  assumes "length A = 32" "length B = 32" "length C = 32"
  shows "\<exists>R S. binaryFieldMul A B = Inr R \<and> binaryFieldMul A C = Inr S \<and>
    binaryFieldMul A (map2 (XOR) B C) = Inr (map2 (XOR) R S)"
proof -
  obtain R where R: "binaryFieldMul A B = Inr R" "length R = 32"
    "le_val R = mod_f (clmul (le_val A) (le_val B))"
    by (rule binaryFieldMul_32 [OF assms(1) assms(2)])
  obtain S where S: "binaryFieldMul A C = Inr S" "length S = 32"
    "le_val S = mod_f (clmul (le_val A) (le_val C))"
    by (rule binaryFieldMul_32 [OF assms(1) assms(3)])
  have "length (map2 (XOR) B C) = 32" using assms by simp
  then obtain T where T: "binaryFieldMul A (map2 (XOR) B C) = Inr T" "length T = 32"
    "le_val T = mod_f (clmul (le_val A) (le_val (map2 (XOR) B C)))"
    by (rule binaryFieldMul_32 [OF assms(1)])
  have "le_val T = le_val (map2 (XOR) R S)"
    using assms R(2) S(2) by (simp add: T(3) R(3) S(3) le_val_map2_xor clmul_xor_right mod_f_xor)
  then have "T = map2 (XOR) R S"
    using T(2) R(2) S(2) by (intro le_val_inj) simp_all
  with R(1) S(1) T(1) show ?thesis by simp
qed

text \<open>With \<open>A = 3\<close>, \<open>B = 5\<close> and \<open>C = 6\<close>: \<open>3 \<cdot> (5 XOR 6) = 15 XOR 10\<close>.\<close>

theorem binaryFieldMul_distrib_witness:
  "binaryFieldMul (3 # replicate 31 0) (map2 (XOR) (5 # replicate 31 0) (6 # replicate 31 0))
     = Inr (map2 (XOR) (15 # replicate 31 0) (10 # replicate 31 0))"
  using binaryFieldMul_distrib [of "3 # replicate 31 0" "5 # replicate 31 0" "6 # replicate 31 0"]
  by (simp add: known_vector known_vector_3_6)

text \<open>
  Claim C7. Packing and unpacking are inverse to each other: the packing loop (lines 24--27)
  turns 32 bytes into little-endian 64-bit words, byte \<open>i\<close> giving the 8 bits at offset
  \<open>(i mod 8) * 8\<close> of word \<open>i div 8\<close>, and the unpacking loop (lines 60--62) applied to
  these words gives the 32 bytes back.
\<close>

theorem pack_unpack_roundtrip:
  assumes "length A = 32" "length B = 32"
  shows "\<exists>a b. pack_loop 0 A B (replicate 4 0) (replicate (4 + 1) 0) = Inr (a, b) \<and>
    unpack_loop 0 a (replicate 32 0) = A \<and> unpack_loop 0 b (replicate 32 0) = B \<and>
    (\<forall>i<32. A ! i = ucast (drop_bit ((i mod 8) * 8) (a ! (i div 8))))"
proof -
  obtain a b where p: "pack_loop 0 A B (replicate 4 0) (replicate 5 0) = Inr (a, b)"
    and l: "length a = 4" "length b = 5"
    and v: "le_val a = le_val (take 32 A)" "le_val b = le_val (take 32 B)"
    using pack_loop_val [of 0 A B "replicate 4 0" "replicate 5 0"] assms by auto
  let ?z = "replicate 32 0 :: byte list"
  have ua: "length (unpack_loop 0 a ?z) = 32" and ub: "length (unpack_loop 0 b ?z) = 32"
    and n: "\<And>m. m < 32 \<Longrightarrow> unpack_loop 0 a ?z ! m = ucast (drop_bit (8 * (m mod 8)) (a ! (m div 8)))"
    using unpack_loop_nth [of 0 ?z a] unpack_loop_nth [of 0 ?z b] by simp_all
  have "le_val (unpack_loop 0 a ?z) = le_val A"
    using le_val_unpack [of a ?z] l(1) v(1) assms(1) by simp
  with ua assms(1) have A: "unpack_loop 0 a ?z = A"
    by (intro le_val_inj) simp_all
  have "le_val (take 4 b) = take_bit 256 (le_val b)"
    using le_val_take [of 4 b] l(2) by simp
  also have "\<dots> = le_val B"
    using le_val_bytes_less [OF assms(2)] assms(2) by (simp add: v(2) take_bit_nat_eq_self)
  finally have "le_val (unpack_loop 0 b ?z) = le_val B"
    using le_val_unpack [of b ?z] l(2) by simp
  with ub assms(2) have B: "unpack_loop 0 b ?z = B"
    by (intro le_val_inj) simp_all
  from n A have "\<forall>i<32. A ! i = ucast (drop_bit ((i mod 8) * 8) (a ! (i div 8)))"
    by (simp add: mult.commute)
  with p A B show ?thesis by simp
qed

theorem pack_unpack_roundtrip_witness:
  "pack_loop 0 (3 # replicate 31 0) (5 # replicate 31 0) (replicate 4 0) (replicate (4 + 1) 0)
     = Inr ([3, 0, 0, 0], [5, 0, 0, 0, 0]) \<and>
   unpack_loop 0 [3, 0, 0, 0] (replicate 32 0) = 3 # replicate 31 0 \<and>
   unpack_loop 0 [5, 0, 0, 0, 0] (replicate 32 0) = 5 # replicate 31 0"
  using pack_unpack_roundtrip [of "3 # replicate 31 0" "5 # replicate 31 0"]
  by (simp add: pack_loop_example)

text \<open>
  Claim C9. \<open>binaryFieldMul\<close> does not change its inputs, and its result is a new buffer.
  On the store: for slices \<open>A\<close> and \<open>B\<close> of 32 bytes that lie within the store (they may
  overlap or be the same), the call leaves every array of the store as it was and adds
  one array \<open>R\<close> of 32 bytes, the product; so \<open>A\<close> and \<open>B\<close> hold after the call what they
  held before, and the slice returned is the whole of the new array, whose backing array
  is neither that of \<open>A\<close> nor that of \<open>B\<close>.
\<close>

theorem binaryFieldMul_st_frame:
  assumes "valid h A" "valid h B" "len A = 32" "len B = 32"
  shows "\<exists>R. binaryFieldMul_st h A B = Inr (\<lparr>base = length h, off = 0, len = 32\<rparr>, h @ [R]) \<and>
    length R = 32 \<and>
    binaryFieldMul (contents h A) (contents h B) = Inr R \<and>
    contents (h @ [R]) A = contents h A \<and> contents (h @ [R]) B = contents h B \<and>
    contents (h @ [R]) \<lparr>base = length h, off = 0, len = 32\<rparr> = R \<and>
    length h \<noteq> base A \<and> length h \<noteq> base B"
proof -
  have l: "length (contents h A) = 32" "length (contents h B) = 32"
    using assms by (auto simp add: contents_def valid_def)
  then obtain R where R: "binaryFieldMul (contents h A) (contents h B) = Inr R" "length R = 32"
    using binaryFieldMul_32 [OF l] by metis
  have "binaryFieldMul_st h A B = Inr (\<lparr>base = length h, off = 0, len = 32\<rparr>, h @ [R])"
    by (simp add: binaryFieldMul_st_eq [OF assms(1,2)] R(1))
  moreover have "contents (h @ [R]) \<lparr>base = length h, off = 0, len = 32\<rparr> = R"
    using R(2) by (simp add: contents_def)
  moreover have "length h \<noteq> base A" "length h \<noteq> base B"
    using assms(1,2) by (auto simp add: valid_def)
  ultimately show ?thesis
    using R assms(1,2) by (simp add: contents_append)
qed

text \<open>Two inputs that are the two halves of one 64-byte array.\<close>

theorem binaryFieldMul_st_frame_witness:
  "binaryFieldMul_st [3 # replicate 31 0 @ 5 # replicate 31 0]
      \<lparr>base = 0, off = 0, len = 32\<rparr> \<lparr>base = 0, off = 32, len = 32\<rparr>
    = Inr (\<lparr>base = 1, off = 0, len = 32\<rparr>,
           [3 # replicate 31 0 @ 5 # replicate 31 0, 15 # replicate 31 0])"
proof -
  let ?h = "[3 # replicate 31 0 @ 5 # replicate 31 0] :: heap"
  let ?A = "\<lparr>base = 0, off = 0, len = 32\<rparr>"
  let ?B = "\<lparr>base = 0, off = 32, len = 32\<rparr>"
  have c: "contents ?h ?A = 3 # replicate 31 0" "contents ?h ?B = 5 # replicate 31 0"
    by (simp_all add: contents_def)
  have v: "valid ?h ?A" "valid ?h ?B"
    by (simp_all add: valid_def)
  from binaryFieldMul_st_frame [OF v] obtain R
    where "binaryFieldMul_st ?h ?A ?B = Inr (\<lparr>base = length ?h, off = 0, len = 32\<rparr>, ?h @ [R])"
      and "binaryFieldMul (contents ?h ?A) (contents ?h ?B) = Inr R"
    by auto
  then show ?thesis
    by (simp add: c known_vector)
qed

text \<open>
  Claim C10. Squaring 256 times is the identity: for every 32-byte \<open>x\<close>, the loop of
  \<open>main\<close> that replaces \<open>x\<close> by \<open>binaryFieldMul x x\<close>, run exactly 256 times, ends with the
  \<open>x\<close> it started from.
\<close>

theorem square_iter_256_identity:
  assumes "length x = 32"
  shows "square_iter 256 x = Inr x"
proof -
  from square_iter_val [OF assms, of 256] obtain y where y: "square_iter 256 x = Inr y"
    "length y = 32" "le_val y = (gf_sq ^^ 256) (le_val x)" by blast
  have "le_val x < 2 ^ 256"
    using assms by (rule le_val_bytes_less)
  then have "(gf_sq ^^ 256) (le_val x) = le_val x"
    by (rule frobenius_fixes_all [OF frobenius_X])
  with y(2,3) assms have "y = x"
    by (intro le_val_inj) simp_all
  with y(1) show ?thesis by simp
qed

text \<open>The run recorded in the source: \<open>Final\<close> and \<open>Expected\<close> are both \<open>b1d15e9e\<dots>a4b4\<close>.\<close>

theorem square_iter_256_identity_witness:
  "square_iter 256
     [0xb1, 0xd1, 0x5e, 0x9e, 0xdf, 0x59, 0xad, 0xda, 0x7e, 0x3f, 0x48, 0x2d, 0x75, 0x4d, 0x6a, 0xf5,
      0x33, 0xcb, 0x11, 0x26, 0x90, 0x87, 0xef, 0xb1, 0x44, 0x19, 0xc6, 0xe1, 0xc4, 0xcb, 0xa4, 0xb4]
   = Inr
     [0xb1, 0xd1, 0x5e, 0x9e, 0xdf, 0x59, 0xad, 0xda, 0x7e, 0x3f, 0x48, 0x2d, 0x75, 0x4d, 0x6a, 0xf5,
      0x33, 0xcb, 0x11, 0x26, 0x90, 0x87, 0xef, 0xb1, 0x44, 0x19, 0xc6, 0xe1, 0xc4, 0xcb, 0xa4, 0xb4]"
  by (rule square_iter_256_identity) simp

end
